theory Spec2Isabelle
  imports Complex_Main
begin

section \<open>scheduler.py: the logit-normal biased timestep scheduler\<close>

text \<open>
  The repository is one function, \<^verbatim>\<open>get_biased_timesteps(num_steps, m, s)\<close>. It
  computes on IEEE-754 doubles through numpy and scipy and returns a list of Python
  integers. The embedding keeps the six stages of the source and makes explicit what
  the libraries do:

  \<^item> a double is a real number; every arithmetic operation of the source returns
    \<open>rnd\<close> of its exact result, where \<open>rnd\<close> is the rounding of the arithmetic
    (a parameter; \<open>fl53\<close> below is round-to-nearest-even on 53 significant bits and
    \<open>fl64\<close> the same with the gradual underflow of binary64). The stages are given
    twice: on finite values, and (\<open>warp_ieee\<close>, \<open>rescale_ieee\<close>) with the overflow to
    infinity and the NaN of \<open>inf - inf\<close>;
  \<^item> a quotient by zero is not an error in numpy: it is NaN for 0/0 and an infinity
    otherwise, so stage 4 produces values of the type \<open>npfloat\<close>;
  \<^item> \<^verbatim>\<open>scipy.stats.norm.ppf\<close> is not part of the repository: it is the parameter
    \<open>ppf\<close>;
  \<^item> \<^verbatim>\<open>astype(int)\<close> of NaN or of an infinity is left to the platform by numpy:
    it is the parameter \<open>cast\<close>;
  \<^item> the exceptions numpy raises (\<^verbatim>\<open>ValueError\<close> from \<^verbatim>\<open>linspace\<close> with
    a negative count, and from \<^verbatim>\<open>min\<close> of an empty array) are results \<open>Inl\<close>.
\<close>

subsection \<open>Values and errors\<close>

datatype error = ValueError

datatype npfloat = Fin real | PInf | NInf | NaN

definition eps :: real where
  \<comment> \<open>\<^verbatim>\<open>np.finfo(float).eps\<close>\<close>
  "eps = 1 / 2 ^ 52"

subsection \<open>The library operations the source calls\<close>

definition linspace :: "(real \<Rightarrow> real) \<Rightarrow> int \<Rightarrow> error + real list" where
  \<comment> \<open>\<^verbatim>\<open>np.linspace(0, 1, num)\<close>: the multiples of the rounded step, the last sample
      set to the stop value; a negative count raises.\<close>
  "linspace rnd num =
     (if num < 0 then Inl ValueError
      else if num = 0 then Inr []
      else if num = 1 then Inr [0]
      else let step = rnd (1 / of_int (num - 1))
           in Inr (map (\<lambda>i. rnd (of_nat i * step)) [0..<nat (num - 1)] @ [1]))"

definition clip_real :: "real \<Rightarrow> real \<Rightarrow> real \<Rightarrow> real" where
  \<comment> \<open>\<^verbatim>\<open>np.clip(x, lo, hi)\<close> on doubles\<close>
  "clip_real lo hi x = min (max x lo) hi"

definition clip_int :: "int \<Rightarrow> int \<Rightarrow> int \<Rightarrow> int" where
  \<comment> \<open>\<^verbatim>\<open>np.clip(x, lo, hi)\<close> on integers\<close>
  "clip_int lo hi x = min (max x lo) hi"

definition fdiv :: "(real \<Rightarrow> real) \<Rightarrow> real \<Rightarrow> real \<Rightarrow> npfloat" where
  \<comment> \<open>the quotient of two doubles\<close>
  "fdiv rnd a b =
     (if b = 0 then (if a = 0 then NaN else if 0 < a then PInf else NInf)
      else Fin (rnd (a / b)))"

fun fmul :: "(real \<Rightarrow> real) \<Rightarrow> npfloat \<Rightarrow> real \<Rightarrow> npfloat" where
  \<comment> \<open>the product of a quotient with a double\<close>
  "fmul rnd (Fin a) k = Fin (rnd (a * k))"
| "fmul rnd PInf k = (if k = 0 then NaN else if 0 < k then PInf else NInf)"
| "fmul rnd NInf k = (if k = 0 then NaN else if 0 < k then NInf else PInf)"
| "fmul rnd NaN k = NaN"

definition round_half_even :: "real \<Rightarrow> int" where
  "round_half_even y =
     (let f = \<lfloor>y\<rfloor>; r = y - of_int f
      in if r < 1 / 2 then f
         else if 1 / 2 < r then f + 1
         else if even f then f else f + 1)"

fun np_round :: "npfloat \<Rightarrow> npfloat" where
  \<comment> \<open>\<^verbatim>\<open>np.round\<close>: to the nearest integer, ties to even\<close>
  "np_round (Fin a) = Fin (of_int (round_half_even a))"
| "np_round x = x"

definition trunc :: "real \<Rightarrow> int" where
  "trunc a = (if 0 \<le> a then \<lfloor>a\<rfloor> else \<lceil>a\<rceil>)"

fun astype_int :: "(npfloat \<Rightarrow> int) \<Rightarrow> npfloat \<Rightarrow> int" where
  \<comment> \<open>\<^verbatim>\<open>astype(int)\<close>: truncation; the platform's value on NaN and infinities\<close>
  "astype_int cast (Fin a) = trunc a"
| "astype_int cast x = cast x"

subsection \<open>The stages of \<^verbatim>\<open>get_biased_timesteps\<close>\<close>

definition fractions :: "(real \<Rightarrow> real) \<Rightarrow> int \<Rightarrow> error + real list" where
  \<comment> \<open>stages 1 and 2: the uniform fractions, clipped into \<open>[eps, 1 - eps]\<close>\<close>
  "fractions rnd num_steps =
     (case linspace rnd num_steps of
        Inl e \<Rightarrow> Inl e
      | Inr u \<Rightarrow> Inr (map (clip_real eps (1 - eps)) u))"

definition warp :: "(real \<Rightarrow> real) \<Rightarrow> (real \<Rightarrow> real) \<Rightarrow> real \<Rightarrow> real \<Rightarrow> real list \<Rightarrow> real list" where
  \<comment> \<open>stage 3: \<^verbatim>\<open>v = m + s * norm.ppf(u)\<close>\<close>
  "warp rnd ppf m s u = map (\<lambda>x. rnd (m + rnd (s * ppf x))) u"

definition denominator :: "(real \<Rightarrow> real) \<Rightarrow> real list \<Rightarrow> error + real" where
  \<comment> \<open>\<^verbatim>\<open>v.max() - v.min()\<close>; the reductions raise on an empty array\<close>
  "denominator rnd v =
     (if v = [] then Inl ValueError else Inr (rnd (Max (set v) - Min (set v))))"

definition rescale :: "(real \<Rightarrow> real) \<Rightarrow> int \<Rightarrow> real list \<Rightarrow> error + npfloat list" where
  \<comment> \<open>stage 4: \<^verbatim>\<open>t = (v - v.min()) / (v.max() - v.min()) * (num_steps - 1)\<close>\<close>
  "rescale rnd num_steps v =
     (case denominator rnd v of
        Inl e \<Rightarrow> Inl e
      | Inr d \<Rightarrow>
          let lo = Min (set v); k = rnd (of_int (num_steps - 1))
          in Inr (map (\<lambda>x. fmul rnd (fdiv rnd (rnd (x - lo)) d) k) v))"

definition round_clip :: "(npfloat \<Rightarrow> int) \<Rightarrow> int \<Rightarrow> npfloat list \<Rightarrow> int list" where
  \<comment> \<open>stage 5: \<^verbatim>\<open>np.clip(np.round(t).astype(int), 0, num_steps - 1)\<close>\<close>
  "round_clip cast num_steps t =
     map (\<lambda>x. clip_int 0 (num_steps - 1) (astype_int cast (np_round x))) t"

fun repair :: "int \<Rightarrow> int list \<Rightarrow> int list" where
  \<comment> \<open>the body of the loop of stage 6, \<open>prev\<close> being \<^verbatim>\<open>timesteps[i-1]\<close> as already
      repaired\<close>
  "repair prev [] = []"
| "repair prev (x # xs) = (if x < prev then prev # repair prev xs else x # repair x xs)"

fun ensure_monotonic :: "int list \<Rightarrow> int list" where
  \<comment> \<open>stage 6: \<^verbatim>\<open>for i in range(1, len(timesteps))\<close>\<close>
  "ensure_monotonic [] = []"
| "ensure_monotonic (x # xs) = x # repair x xs"

definition stage5 ::
  "(real \<Rightarrow> real) \<Rightarrow> (real \<Rightarrow> real) \<Rightarrow> (npfloat \<Rightarrow> int) \<Rightarrow> int \<Rightarrow> real \<Rightarrow> real \<Rightarrow> error + int list" where
  \<comment> \<open>the source up to and including stage 5\<close>
  "stage5 rnd ppf cast num_steps m s =
     (case fractions rnd num_steps of
        Inl e \<Rightarrow> Inl e
      | Inr u \<Rightarrow>
          (case rescale rnd num_steps (warp rnd ppf m s u) of
             Inl e \<Rightarrow> Inl e
           | Inr t \<Rightarrow> Inr (round_clip cast num_steps t)))"

definition get_biased_timesteps ::
  "(real \<Rightarrow> real) \<Rightarrow> (real \<Rightarrow> real) \<Rightarrow> (npfloat \<Rightarrow> int) \<Rightarrow> int \<Rightarrow> real \<Rightarrow> real \<Rightarrow> error + int list" where
  "get_biased_timesteps rnd ppf cast num_steps m s =
     (case stage5 rnd ppf cast num_steps m s of
        Inl e \<Rightarrow> Inl e
      | Inr ts \<Rightarrow> Inr (ensure_monotonic ts))"

definition timestep :: "(real \<Rightarrow> real) \<Rightarrow> (npfloat \<Rightarrow> int) \<Rightarrow> int \<Rightarrow> real \<Rightarrow> real \<Rightarrow> real \<Rightarrow> int" where
  \<comment> \<open>stages 4 and 5 on one element \<open>x\<close> of \<^verbatim>\<open>v\<close>, \<open>lo\<close> being \<^verbatim>\<open>v.min()\<close> and
      \<open>d\<close> the denominator\<close>
  "timestep rnd cast num_steps lo d x =
     clip_int 0 (num_steps - 1)
       (astype_int cast (np_round (fmul rnd (fdiv rnd (rnd (x - lo)) d) (rnd (of_int (num_steps - 1))))))"

subsection \<open>The function on doubles that overflow\<close>

text \<open>
  The stages above carry finite values: they are the source on every input where no
  operation of stages 3 and 4 overflows (\<open>get_biased_timesteps_ieee_finite\<close> below). A scale \<open>s\<close> or a shift \<open>m\<close> large enough makes
  \<^verbatim>\<open>m + s * norm.ppf(u)\<close> infinite, and \<^verbatim>\<open>v - v.min()\<close> is then \<open>inf - inf\<close>, a NaN. The
  stages below follow the source there too: every operation returns \<open>to_double\<close> of its
  exact result, and the infinities and NaN combine as in IEEE-754. Stages 1, 2, 5 and 6
  are the ones above (a fraction is clipped into \<open>[eps, 1 - eps]\<close> whatever its size).
\<close>

definition max_double :: real where
  \<comment> \<open>the largest finite double, \<open>(2 - 2\<^sup>-\<^sup>5\<^sup>2) * 2\<^sup>1\<^sup>0\<^sup>2\<^sup>3\<close>\<close>
  "max_double = 2 ^ 1024 - 2 ^ 971"

definition to_double :: "(real \<Rightarrow> real) \<Rightarrow> real \<Rightarrow> npfloat" where
  \<comment> \<open>the double an exact result becomes: rounded, and an infinity when the rounded
      value is beyond the largest finite double\<close>
  "to_double rnd x =
     (let y = rnd x
      in if max_double < y then PInf else if y < - max_double then NInf else Fin y)"

fun fneg :: "npfloat \<Rightarrow> npfloat" where
  "fneg (Fin a) = Fin (- a)"
| "fneg PInf = NInf"
| "fneg NInf = PInf"
| "fneg NaN = NaN"

fun fadd :: "(real \<Rightarrow> real) \<Rightarrow> npfloat \<Rightarrow> npfloat \<Rightarrow> npfloat" where
  \<comment> \<open>the sum of two doubles: \<open>inf + (-inf)\<close> is NaN\<close>
  "fadd rnd (Fin a) (Fin b) = to_double rnd (a + b)"
| "fadd rnd NaN y = NaN"
| "fadd rnd x NaN = NaN"
| "fadd rnd PInf NInf = NaN"
| "fadd rnd NInf PInf = NaN"
| "fadd rnd PInf y = PInf"
| "fadd rnd x PInf = PInf"
| "fadd rnd NInf y = NInf"
| "fadd rnd x NInf = NInf"

definition fsub :: "(real \<Rightarrow> real) \<Rightarrow> npfloat \<Rightarrow> npfloat \<Rightarrow> npfloat" where
  \<comment> \<open>the difference of two doubles: \<open>inf - inf\<close> is NaN\<close>
  "fsub rnd x y = fadd rnd x (fneg y)"

fun fsign :: "npfloat \<Rightarrow> real" where
  "fsign (Fin a) = sgn a"
| "fsign PInf = 1"
| "fsign NInf = - 1"
| "fsign NaN = 0"

fun fmul_ieee :: "(real \<Rightarrow> real) \<Rightarrow> npfloat \<Rightarrow> npfloat \<Rightarrow> npfloat" where
  \<comment> \<open>the product of two doubles: \<open>inf * 0\<close> is NaN\<close>
  "fmul_ieee rnd (Fin a) (Fin b) = to_double rnd (a * b)"
| "fmul_ieee rnd x y =
     (if x = NaN \<or> y = NaN \<or> fsign x = 0 \<or> fsign y = 0 then NaN
      else if 0 < fsign x * fsign y then PInf else NInf)"

fun fdiv_ieee :: "(real \<Rightarrow> real) \<Rightarrow> npfloat \<Rightarrow> npfloat \<Rightarrow> npfloat" where
  \<comment> \<open>the quotient of two doubles: \<open>0 / 0\<close> and \<open>inf / inf\<close> are NaN, a finite value over an
      infinity is 0\<close>
  "fdiv_ieee rnd (Fin a) (Fin b) =
     (if b = 0 then (if a = 0 then NaN else if 0 < a then PInf else NInf)
      else to_double rnd (a / b))"
| "fdiv_ieee rnd NaN y = NaN"
| "fdiv_ieee rnd x NaN = NaN"
| "fdiv_ieee rnd (Fin a) y = Fin 0"
| "fdiv_ieee rnd PInf (Fin b) = (if 0 \<le> b then PInf else NInf)"
| "fdiv_ieee rnd NInf (Fin b) = (if 0 \<le> b then NInf else PInf)"
| "fdiv_ieee rnd x y = NaN"

fun fle :: "npfloat \<Rightarrow> npfloat \<Rightarrow> bool" where
  \<comment> \<open>the order of the doubles; NaN compares with nothing\<close>
  "fle NaN y = False"
| "fle x NaN = False"
| "fle NInf y = True"
| "fle x PInf = True"
| "fle (Fin a) (Fin b) = (a \<le> b)"
| "fle x y = False"

definition fmin :: "npfloat \<Rightarrow> npfloat \<Rightarrow> npfloat" where
  \<comment> \<open>\<^verbatim>\<open>np.minimum\<close>: NaN propagates\<close>
  "fmin x y = (if x = NaN \<or> y = NaN then NaN else if fle x y then x else y)"

definition fmax :: "npfloat \<Rightarrow> npfloat \<Rightarrow> npfloat" where
  \<comment> \<open>\<^verbatim>\<open>np.maximum\<close>: NaN propagates\<close>
  "fmax x y = (if x = NaN \<or> y = NaN then NaN else if fle x y then y else x)"

fun amin :: "npfloat list \<Rightarrow> error + npfloat" where
  \<comment> \<open>\<^verbatim>\<open>v.min()\<close>; it raises on an empty array\<close>
  "amin [] = Inl ValueError"
| "amin (x # xs) = Inr (fold fmin xs x)"

fun amax :: "npfloat list \<Rightarrow> error + npfloat" where
  \<comment> \<open>\<^verbatim>\<open>v.max()\<close>; it raises on an empty array\<close>
  "amax [] = Inl ValueError"
| "amax (x # xs) = Inr (fold fmax xs x)"

definition warp_ieee ::
  "(real \<Rightarrow> real) \<Rightarrow> (real \<Rightarrow> real) \<Rightarrow> real \<Rightarrow> real \<Rightarrow> real list \<Rightarrow> npfloat list" where
  \<comment> \<open>stage 3: \<^verbatim>\<open>v = m + s * norm.ppf(u)\<close>, each operation rounded and overflowing\<close>
  "warp_ieee rnd ppf m s u =
     map (\<lambda>x. fadd rnd (Fin m) (fmul_ieee rnd (Fin s) (Fin (ppf x)))) u"

definition rescale_ieee :: "(real \<Rightarrow> real) \<Rightarrow> int \<Rightarrow> npfloat list \<Rightarrow> error + npfloat list" where
  \<comment> \<open>stage 4: \<^verbatim>\<open>t = (v - v.min()) / (v.max() - v.min()) * (num_steps - 1)\<close>\<close>
  "rescale_ieee rnd num_steps v =
     (case amin v of
        Inl e \<Rightarrow> Inl e
      | Inr lo \<Rightarrow>
          (case amax v of
             Inl e \<Rightarrow> Inl e
           | Inr hi \<Rightarrow>
               let d = fsub rnd hi lo; k = to_double rnd (of_int (num_steps - 1))
               in Inr (map (\<lambda>x. fmul_ieee rnd (fdiv_ieee rnd (fsub rnd x lo) d) k) v)))"

definition stage5_ieee ::
  "(real \<Rightarrow> real) \<Rightarrow> (real \<Rightarrow> real) \<Rightarrow> (npfloat \<Rightarrow> int) \<Rightarrow> int \<Rightarrow> real \<Rightarrow> real \<Rightarrow> error + int list" where
  \<comment> \<open>the source up to and including stage 5\<close>
  "stage5_ieee rnd ppf cast num_steps m s =
     (case fractions rnd num_steps of
        Inl e \<Rightarrow> Inl e
      | Inr u \<Rightarrow>
          (case rescale_ieee rnd num_steps (warp_ieee rnd ppf m s u) of
             Inl e \<Rightarrow> Inl e
           | Inr t \<Rightarrow> Inr (round_clip cast num_steps t)))"

definition get_biased_timesteps_ieee ::
  "(real \<Rightarrow> real) \<Rightarrow> (real \<Rightarrow> real) \<Rightarrow> (npfloat \<Rightarrow> int) \<Rightarrow> int \<Rightarrow> real \<Rightarrow> real \<Rightarrow> error + int list" where
  "get_biased_timesteps_ieee rnd ppf cast num_steps m s =
     (case stage5_ieee rnd ppf cast num_steps m s of
        Inl e \<Rightarrow> Inl e
      | Inr ts \<Rightarrow> Inr (ensure_monotonic ts))"

definition get_biased_timesteps_ieee_no_repair ::
  "(real \<Rightarrow> real) \<Rightarrow> (real \<Rightarrow> real) \<Rightarrow> (npfloat \<Rightarrow> int) \<Rightarrow> int \<Rightarrow> real \<Rightarrow> real \<Rightarrow> error + int list" where
  \<comment> \<open>the source with the loop of stage 6 removed: it returns what stage 5 computed\<close>
  "get_biased_timesteps_ieee_no_repair rnd ppf cast num_steps m s =
     stage5_ieee rnd ppf cast num_steps m s"

definition timestep_ieee ::
  "(real \<Rightarrow> real) \<Rightarrow> (npfloat \<Rightarrow> int) \<Rightarrow> int \<Rightarrow> npfloat \<Rightarrow> npfloat \<Rightarrow> npfloat \<Rightarrow> int" where
  \<comment> \<open>stages 4 and 5 on one element \<open>x\<close> of \<^verbatim>\<open>v\<close>, \<open>lo\<close> being \<^verbatim>\<open>v.min()\<close> and
      \<open>d\<close> the denominator\<close>
  "timestep_ieee rnd cast num_steps lo d x =
     clip_int 0 (num_steps - 1)
       (astype_int cast (np_round
          (fmul_ieee rnd (fdiv_ieee rnd (fsub rnd x lo) d) (to_double rnd (of_int (num_steps - 1))))))"

definition quotient_timestep :: "(real \<Rightarrow> real) \<Rightarrow> (npfloat \<Rightarrow> int) \<Rightarrow> int \<Rightarrow> npfloat \<Rightarrow> npfloat \<Rightarrow> int" where
  \<comment> \<open>the rest of stages 4 and 5 on a numerator \<open>z\<close> of \<^verbatim>\<open>v - v.min()\<close>\<close>
  "quotient_timestep rnd cast n d z =
     clip_int 0 (n - 1) (astype_int cast (np_round
       (fmul_ieee rnd (fdiv_ieee rnd z d) (to_double rnd (of_int (n - 1))))))"

subsection \<open>The arithmetic of the platform\<close>

definition fl53 :: "real \<Rightarrow> real" where
  \<comment> \<open>rounding to 53 significant bits, to nearest with ties to even, the exponent
      unbounded: binary64 rounding on its normal range, with neither overflow nor
      underflow\<close>
  "fl53 x =
     (let q = 2 powr of_int (\<lfloor>log 2 \<bar>x\<bar>\<rfloor> - 52)
      in sgn x * (of_int (round_half_even (\<bar>x\<bar> / q)) * q))"

definition fl64 :: "real \<Rightarrow> real" where
  \<comment> \<open>binary64 rounding, to nearest with ties to even, with gradual underflow: below
      \<open>2\<^sup>-\<^sup>1\<^sup>0\<^sup>2\<^sup>2\<close> the spacing of the doubles stays \<open>2\<^sup>-\<^sup>1\<^sup>0\<^sup>7\<^sup>4\<close>; overflow is left to
      \<open>to_double\<close>\<close>
  "fl64 x =
     (let q = 2 powr of_int (max \<lfloor>log 2 \<bar>x\<bar>\<rfloor> (- 1022) - 52)
      in sgn x * (of_int (round_half_even (\<bar>x\<bar> / q)) * q))"

definition cast_x86_64 :: "npfloat \<Rightarrow> int" where
  \<comment> \<open>x86-64 converts NaN and the infinities to the smallest 64-bit integer\<close>
  "cast_x86_64 x = - (2 ^ 63)"

definition logistic_ppf :: "real \<Rightarrow> real" where
  \<comment> \<open>the quantile function of the standard logistic distribution: a closed-form
      quantile function, increasing and odd about 1/2 like the normal one, for the
      instances below\<close>
  "logistic_ppf u = ln (u / (1 - u))"

section \<open>Rounding\<close>

lemma round_half_even_cases:
  "round_half_even y = \<lfloor>y\<rfloor> \<and> y - of_int \<lfloor>y\<rfloor> \<le> 1 / 2
   \<or> round_half_even y = \<lfloor>y\<rfloor> + 1 \<and> 1 / 2 \<le> y - of_int \<lfloor>y\<rfloor>"
  by (simp add: round_half_even_def Let_def)

lemma round_half_even_of_int [simp]: "round_half_even (of_int k) = k"
  by (simp add: round_half_even_def)

lemma round_half_even_numeral [simp]: "round_half_even (numeral n) = numeral n"
  using round_half_even_of_int [of "numeral n"] by simp

lemma round_half_even_mono:
  assumes "x \<le> y"
  shows "round_half_even x \<le> round_half_even y"
proof -
  have fl: "\<lfloor>x\<rfloor> \<le> \<lfloor>y\<rfloor>" using assms by (rule floor_mono)
  show ?thesis
  proof (cases "\<lfloor>x\<rfloor> = \<lfloor>y\<rfloor>")
    case True
    with assms have "x - of_int \<lfloor>x\<rfloor> \<le> y - of_int \<lfloor>y\<rfloor>" by simp
    with True show ?thesis by (auto simp: round_half_even_def Let_def)
  next
    case False
    with fl have "\<lfloor>x\<rfloor> + 1 \<le> \<lfloor>y\<rfloor>" by simp
    moreover have "round_half_even x \<le> \<lfloor>x\<rfloor> + 1"
      using round_half_even_cases [of x] by auto
    moreover have "\<lfloor>y\<rfloor> \<le> round_half_even y"
      using round_half_even_cases [of y] by auto
    ultimately show ?thesis by linarith
  qed
qed

lemma log2_bracket:
  assumes "0 < x"
  shows "2 powr of_int \<lfloor>log 2 x\<rfloor> \<le> x" and "x < 2 powr of_int (\<lfloor>log 2 x\<rfloor> + 1)"
  using floor_log_eq_powr_iff [of x 2 "\<lfloor>log 2 x\<rfloor>"] assms by simp_all

lemma fl53_pos_eq:
  assumes "0 < x"
  shows "fl53 x = of_int (round_half_even (x / 2 powr of_int (\<lfloor>log 2 x\<rfloor> - 52)))
                    * 2 powr of_int (\<lfloor>log 2 x\<rfloor> - 52)"
  using assms by (simp add: fl53_def Let_def)

lemma fl53_zero [simp]: "fl53 0 = 0"
  by (simp add: fl53_def)

lemma fl53_minus: "fl53 (- x) = - fl53 x"
  by (simp add: fl53_def Let_def sgn_minus)

lemma fl53_pos_bounds:
  assumes "0 < x"
  shows "2 powr of_int \<lfloor>log 2 x\<rfloor> \<le> fl53 x" and "fl53 x \<le> 2 powr of_int (\<lfloor>log 2 x\<rfloor> + 1)"
proof -
  define e where "e = \<lfloor>log 2 x\<rfloor>"
  define q :: real where "q = 2 powr of_int (e - 52)"
  have q: "0 < q" by (simp add: q_def)
  have lo: "2 powr of_int e = 2 ^ 52 * q" and hi: "2 powr of_int (e + 1) = 2 ^ 53 * q"
    by (simp_all add: q_def powr_diff powr_add)
  have "2 ^ 52 * q \<le> x" "x < 2 ^ 53 * q"
    using log2_bracket [OF assms] lo hi by (simp_all add: e_def)
  then have "of_int (2 ^ 52) \<le> x / q" "x / q \<le> of_int (2 ^ 53)"
    using q by (simp_all add: field_simps)
  then have "2 ^ 52 \<le> round_half_even (x / q)" "round_half_even (x / q) \<le> 2 ^ 53"
    using round_half_even_mono [of "of_int (2 ^ 52)" "x / q"]
      round_half_even_mono [of "x / q" "of_int (2 ^ 53)"]
    unfolding round_half_even_of_int by simp_all
  then have "2 ^ 52 \<le> (of_int (round_half_even (x / q)) :: real)"
    "(of_int (round_half_even (x / q)) :: real) \<le> 2 ^ 53"
    by (metis of_int_le_iff of_int_numeral of_int_power)+
  then have "2 ^ 52 * q \<le> of_int (round_half_even (x / q)) * q"
    "of_int (round_half_even (x / q)) * q \<le> 2 ^ 53 * q"
    using q by simp_all
  moreover have "fl53 x = of_int (round_half_even (x / q)) * q"
    using fl53_pos_eq [OF assms] by (simp add: q_def e_def)
  ultimately show "2 powr of_int \<lfloor>log 2 x\<rfloor> \<le> fl53 x"
    and "fl53 x \<le> 2 powr of_int (\<lfloor>log 2 x\<rfloor> + 1)"
    using lo hi by (simp_all add: e_def)
qed

lemma fl53_pos: "0 < x \<Longrightarrow> 0 < fl53 x"
  using fl53_pos_bounds(1) [of x] powr_gt_zero [of 2 "of_int \<lfloor>log 2 x\<rfloor>"] by linarith

lemma fl53_neg: "x < 0 \<Longrightarrow> fl53 x < 0"
  using fl53_pos [of "- x"] by (simp add: fl53_minus)

lemma fl53_eq_0_iff [simp]: "fl53 x = 0 \<longleftrightarrow> x = 0"
proof
  assume z: "fl53 x = 0"
  show "x = 0"
  proof (rule ccontr)
    assume "x \<noteq> 0"
    then consider "x < 0" | "0 < x" by linarith
    then show False
    proof cases
      case 1
      then show False using fl53_neg [of x] z by simp
    next
      case 2
      then show False using fl53_pos [of x] z by simp
    qed
  qed
next
  assume "x = 0"
  then show "fl53 x = 0" by simp
qed

lemma fl53_mono_pos:
  assumes "0 < x" "x \<le> y"
  shows "fl53 x \<le> fl53 y"
proof -
  have y: "0 < y" using assms by simp
  have le: "\<lfloor>log 2 x\<rfloor> \<le> \<lfloor>log 2 y\<rfloor>"
    using assms y by (intro floor_mono) simp
  show ?thesis
  proof (cases "\<lfloor>log 2 x\<rfloor> = \<lfloor>log 2 y\<rfloor>")
    case True
    define q :: real where "q = 2 powr of_int (\<lfloor>log 2 y\<rfloor> - 52)"
    have q: "0 < q" by (simp add: q_def)
    have "x / q \<le> y / q" using assms q by (simp add: divide_right_mono)
    then have "(of_int (round_half_even (x / q)) :: real) \<le> of_int (round_half_even (y / q))"
      using round_half_even_mono by simp
    then have "of_int (round_half_even (x / q)) * q \<le> of_int (round_half_even (y / q)) * q"
      using q by simp
    then show ?thesis
      using fl53_pos_eq [OF assms(1)] fl53_pos_eq [OF y] True by (simp add: q_def)
  next
    case False
    with le have "\<lfloor>log 2 x\<rfloor> + 1 \<le> \<lfloor>log 2 y\<rfloor>" by simp
    then have "(2::real) powr of_int (\<lfloor>log 2 x\<rfloor> + 1) \<le> 2 powr of_int \<lfloor>log 2 y\<rfloor>"
      by simp
    with fl53_pos_bounds(2) [OF assms(1)] fl53_pos_bounds(1) [OF y] show ?thesis
      by linarith
  qed
qed

lemma fl53_mono: "mono fl53"
proof (rule monoI)
  fix x y :: real
  assume xy: "x \<le> y"
  consider "0 < x" | "x = 0" "0 < y" | "x = 0" "y = 0" | "x < 0" "0 \<le> y" | "y < 0"
    using xy by linarith
  then show "fl53 x \<le> fl53 y"
  proof cases
    case 1
    then show ?thesis using xy by (rule fl53_mono_pos)
  next
    case 2
    then show ?thesis using fl53_pos [of y] by simp
  next
    case 3
    then show ?thesis by simp
  next
    case 4
    then show ?thesis using fl53_neg [of x] fl53_pos [of y] by (cases "y = 0") auto
  next
    case 5
    then have "fl53 (- y) \<le> fl53 (- x)" using xy by (intro fl53_mono_pos) simp_all
    then show ?thesis by (simp add: fl53_minus)
  qed
qed

lemma fl53_one [simp]: "fl53 1 = 1"
  by (simp add: fl53_def powr_minus)

section \<open>The stages return, with the length and the range of the result\<close>

lemma linspace_length:
  "linspace rnd num = Inr u \<Longrightarrow> length u = nat num"
  by (auto simp: linspace_def Let_def split: if_splits)

lemma linspace_ok:
  "0 \<le> num \<Longrightarrow> \<exists>u. linspace rnd num = Inr u"
  by (auto simp: linspace_def Let_def)

lemma linspace_error:
  "num < 0 \<Longrightarrow> linspace rnd num = Inl ValueError"
  by (simp add: linspace_def)

lemma fractions_length:
  "fractions rnd num = Inr u \<Longrightarrow> length u = nat num"
  by (auto simp: fractions_def dest: linspace_length split: sum.splits)

lemma fractions_ok:
  "0 \<le> num \<Longrightarrow> \<exists>u. fractions rnd num = Inr u"
  using linspace_ok [of num rnd] by (auto simp: fractions_def)

lemma rescale_length:
  "rescale rnd num v = Inr t \<Longrightarrow> length t = length v"
  by (auto simp: rescale_def Let_def split: sum.splits)

lemma rescale_ok:
  "v \<noteq> [] \<Longrightarrow> \<exists>t. rescale rnd num v = Inr t"
  by (simp add: rescale_def denominator_def Let_def)

lemma rescale_empty:
  "rescale rnd num [] = Inl ValueError"
  by (simp add: rescale_def denominator_def)

lemma stage5_ok:
  assumes "0 < num"
  shows "\<exists>ts. stage5 rnd ppf cast num m s = Inr ts \<and> length ts = nat num
           \<and> (\<forall>x \<in> set ts. 0 \<le> x \<and> x \<le> num - 1)"
proof -
  obtain u where u: "fractions rnd num = Inr u"
    using fractions_ok [of num rnd] assms by auto
  then have lu: "length u = nat num" by (rule fractions_length)
  with assms have "warp rnd ppf m s u \<noteq> []" by (auto simp: warp_def)
  then obtain t where t: "rescale rnd num (warp rnd ppf m s u) = Inr t"
    using rescale_ok by blast
  then have lt: "length t = nat num"
    using rescale_length [OF t] lu by (simp add: warp_def)
  have "stage5 rnd ppf cast num m s = Inr (round_clip cast num t)"
    by (simp add: stage5_def u t)
  moreover have "length (round_clip cast num t) = nat num"
    by (simp add: round_clip_def lt)
  moreover have "\<forall>x \<in> set (round_clip cast num t). 0 \<le> x \<and> x \<le> num - 1"
    using assms by (auto simp: round_clip_def clip_int_def)
  ultimately show ?thesis by blast
qed

lemma stage5_error:
  assumes "num < 1"
  shows "stage5 rnd ppf cast num m s = Inl ValueError"
proof (cases "num < 0")
  case True
  then show ?thesis
    by (simp add: stage5_def fractions_def linspace_def)
next
  case False
  with assms have "num = 0" by simp
  then show ?thesis
    by (simp add: stage5_def fractions_def linspace_def warp_def rescale_empty)
qed

lemma repair_length: "length (repair p xs) = length xs"
  by (induction xs arbitrary: p) auto

lemma repair_bounds:
  "lo \<le> p \<Longrightarrow> p \<le> hi \<Longrightarrow> \<forall>x \<in> set xs. lo \<le> x \<and> x \<le> hi \<Longrightarrow>
     \<forall>x \<in> set (repair p xs). lo \<le> x \<and> x \<le> hi"
proof (induction xs arbitrary: p)
  case Nil
  show ?case by simp
next
  case (Cons a xs)
  have a: "lo \<le> a" "a \<le> hi" and xs: "\<forall>x \<in> set xs. lo \<le> x \<and> x \<le> hi"
    using Cons.prems(3) by simp_all
  show ?case
  proof (cases "a < p")
    case True
    then show ?thesis using Cons.IH [OF Cons.prems(1,2) xs] Cons.prems(1,2) by simp
  next
    case False
    then show ?thesis using Cons.IH [OF a xs] a by simp
  qed
qed

lemma repair_lower: "\<forall>x \<in> set (repair p xs). p \<le> x"
proof (induction xs arbitrary: p)
  case Nil
  show ?case by simp
next
  case (Cons a xs)
  show ?case
  proof (cases "a < p")
    case True
    then show ?thesis using Cons.IH [of p] by simp
  next
    case False
    then show ?thesis using Cons.IH [of a] by fastforce
  qed
qed

lemma repair_sorted: "sorted (repair p xs)"
proof (induction xs arbitrary: p)
  case Nil
  show ?case by simp
next
  case (Cons x xs)
  show ?case
  proof (cases "x < p")
    case True
    then show ?thesis using Cons.IH [of p] repair_lower [of p xs] by simp
  next
    case False
    then show ?thesis using Cons.IH [of x] repair_lower [of x xs] by simp
  qed
qed

lemma ensure_monotonic_length: "length (ensure_monotonic xs) = length xs"
  by (cases xs) (simp_all add: repair_length)

lemma ensure_monotonic_sorted: "sorted (ensure_monotonic xs)"
proof (cases xs)
  case Nil
  then show ?thesis by simp
next
  case (Cons x ys)
  then show ?thesis using repair_lower [of x ys] repair_sorted [of x ys] by simp
qed

lemma ensure_monotonic_bounds:
  "\<forall>x \<in> set xs. lo \<le> x \<and> x \<le> hi \<Longrightarrow> \<forall>x \<in> set (ensure_monotonic xs). lo \<le> x \<and> x \<le> hi"
proof (cases xs)
  case Nil
  then show ?thesis by simp
next
  case (Cons x ys)
  assume b: "\<forall>x \<in> set xs. lo \<le> x \<and> x \<le> hi"
  with Cons have x: "lo \<le> x" "x \<le> hi" and ys: "\<forall>x \<in> set ys. lo \<le> x \<and> x \<le> hi"
    by simp_all
  show ?thesis using Cons repair_bounds [OF x ys] x by simp
qed

lemma repair_sorted_id: "sorted (p # xs) \<Longrightarrow> repair p xs = xs"
  by (induction xs arbitrary: p) auto

lemma ensure_monotonic_sorted_id: "sorted xs \<Longrightarrow> ensure_monotonic xs = xs"
  by (cases xs) (simp_all add: repair_sorted_id)

section \<open>The clipped fractions are sorted\<close>

lemma eps_pos: "0 < eps" and eps_le: "eps \<le> 1 - eps" and eps_lt_half: "eps < 1 / 2"
  by (simp_all add: eps_def)

lemma clip_real_range:
  "lo \<le> hi \<Longrightarrow> lo \<le> clip_real lo hi x \<and> clip_real lo hi x \<le> hi"
  by (simp add: clip_real_def)

lemma clip_real_mono: "x \<le> y \<Longrightarrow> clip_real lo hi x \<le> clip_real lo hi y"
  unfolding clip_real_def by (meson max.mono min.mono order_refl)

lemma clip_int_mono: "x \<le> y \<Longrightarrow> clip_int lo hi x \<le> clip_int lo hi y"
  unfolding clip_int_def by (meson max.mono min.mono order_refl)

lemma clip_real_one: "clip_real eps (1 - eps) 1 = 1 - eps"
  using eps_pos eps_le by (simp add: clip_real_def)

lemma clip_real_zero: "clip_real eps (1 - eps) 0 = eps"
  using eps_pos eps_le by (simp add: clip_real_def)

lemma round_half_even_zero [simp]: "round_half_even 0 = 0"
  by (simp add: round_half_even_def)

lemma round_half_even_one [simp]: "round_half_even 1 = 1"
  by (simp add: round_half_even_def)

lemma trunc_zero [simp]: "trunc 0 = 0"
  by (simp add: trunc_def)

lemma trunc_one [simp]: "trunc 1 = 1"
  by (simp add: trunc_def)

lemma trunc_of_int [simp]: "trunc (of_int j) = j"
  by (simp add: trunc_def)

lemma sorted_map_mono_on:
  assumes "sorted xs" "set xs \<subseteq> S" "\<And>x y. x \<in> S \<Longrightarrow> y \<in> S \<Longrightarrow> x \<le> y \<Longrightarrow> f x \<le> f y"
  shows "sorted (map f xs)"
  using assms(1,2)
proof (induction xs)
  case Nil
  show ?case by simp
next
  case (Cons a xs)
  have "\<forall>y \<in> set xs. f a \<le> f y"
  proof
    fix y assume y: "y \<in> set xs"
    with Cons.prems have "a \<le> y" "a \<in> S" "y \<in> S" by auto
    then show "f a \<le> f y" using assms(3) by blast
  qed
  moreover have "sorted (map f xs)" using Cons by simp
  ultimately show ?case by simp
qed

lemma fractions_shape:
  assumes "2 \<le> n"
  shows "fractions rnd n =
    Inr (map (\<lambda>i. clip_real eps (1 - eps) (rnd (of_nat i * rnd (1 / of_int (n - 1)))))
          [0..<nat (n - 1)] @ [1 - eps])"
  using assms by (simp add: fractions_def linspace_def Let_def clip_real_one)

lemma fractions_range:
  assumes "fractions rnd n = Inr u"
  shows "set u \<subseteq> {eps..1 - eps}"
  using assms clip_real_range [OF eps_le]
  by (auto simp: fractions_def split: sum.splits)

lemma fractions_sorted:
  assumes "fractions rnd n = Inr u" "mono rnd" "rnd 0 = 0"
  shows "sorted u"
proof (cases "2 \<le> n")
  case False
  then have "length u \<le> 1"
    using assms(1) by (auto simp: fractions_def linspace_def split: if_splits)
  then show ?thesis by (cases u) auto
next
  case True
  define step where "step = rnd (1 / of_int (n - 1))"
  define f where "f = (\<lambda>i::nat. clip_real eps (1 - eps) (rnd (of_nat i * step)))"
  have "0 \<le> step"
    using True monoD [OF assms(2), of 0 "1 / of_int (n - 1)"] assms(3)
    by (simp add: step_def)
  then have f: "\<And>i j. i \<le> j \<Longrightarrow> f i \<le> f j"
    unfolding f_def
    by (intro clip_real_mono monoD [OF assms(2)] mult_right_mono) simp_all
  have u: "u = map f [0..<nat (n - 1)] @ [1 - eps]"
    using fractions_shape [OF True, of rnd] assms(1) by (simp add: f_def step_def)
  have "sorted (map f [0..<nat (n - 1)])"
    by (rule sorted_map_mono_on [where S = UNIV]) (simp_all add: f)
  moreover have "\<forall>x \<in> set (map f [0..<nat (n - 1)]). x \<le> 1 - eps"
    using clip_real_range [OF eps_le] by (auto simp: f_def)
  ultimately show ?thesis by (simp add: u sorted_append)
qed

lemma fractions_hd:
  assumes "1 \<le> n" "rnd 0 = 0"
  shows "\<exists>u. fractions rnd n = Inr (eps # u)"
proof (cases "n = 1")
  case True
  then show ?thesis by (simp add: fractions_def linspace_def clip_real_zero)
next
  case False
  with assms have n: "2 \<le> n" by simp
  then have "0 < nat (n - 1)" by simp
  then have "[0..<nat (n - 1)] = 0 # [1..<nat (n - 1)]"
    by (simp add: upt_rec)
  then show ?thesis
    using fractions_shape [OF n, of rnd] assms(2) by (simp add: clip_real_zero)
qed

lemma fractions_last:
  assumes "2 \<le> n" "fractions rnd n = Inr u"
  shows "1 - eps \<in> set u"
  using assms fractions_shape [OF assms(1), of rnd] by auto

section \<open>Stages 3 to 5 are monotone\<close>

lemma stage5_eq:
  assumes "fractions rnd n = Inr u" "u \<noteq> []"
  shows "stage5 rnd ppf cast n m s =
    Inr (map (timestep rnd cast n (Min (set (warp rnd ppf m s u)))
               (rnd (Max (set (warp rnd ppf m s u)) - Min (set (warp rnd ppf m s u)))))
          (warp rnd ppf m s u))"
proof -
  have "warp rnd ppf m s u \<noteq> []" using assms(2) by (simp add: warp_def)
  then show ?thesis
    using assms(1)
    by (simp add: stage5_def rescale_def denominator_def round_clip_def Let_def timestep_def)
qed

lemma warp_mono_on:
  fixes rnd ppf :: "real \<Rightarrow> real"
  assumes "mono rnd" "mono_on {eps..1 - eps} ppf" "0 \<le> s"
    "x \<in> {eps..1 - eps}" "y \<in> {eps..1 - eps}" "x \<le> y"
  shows "rnd (m + rnd (s * ppf x)) \<le> rnd (m + rnd (s * ppf y))"
proof -
  have "ppf x \<le> ppf y" using assms(2,4,5,6) by (rule monotone_onD)
  then have "s * ppf x \<le> s * ppf y" using assms(3) by (simp add: mult_left_mono)
  then have "rnd (s * ppf x) \<le> rnd (s * ppf y)" by (rule monoD [OF assms(1)])
  then have "m + rnd (s * ppf x) \<le> m + rnd (s * ppf y)" by simp
  then show ?thesis by (rule monoD [OF assms(1)])
qed

lemma timestep_const:
  assumes "mono rnd" "rnd 0 = 0" "lo \<le> x" "x \<le> hi" "rnd (hi - lo) = 0"
  shows "timestep rnd cast n lo (rnd (hi - lo)) x = clip_int 0 (n - 1) (cast NaN)"
proof -
  have "rnd 0 \<le> rnd (x - lo)" "rnd (x - lo) \<le> rnd (hi - lo)"
    using assms(3,4) by (auto intro!: monoD [OF assms(1)])
  then have "rnd (x - lo) = 0" using assms(2,5) by simp
  then show ?thesis by (simp add: timestep_def fdiv_def assms(5))
qed

lemma timestep_mono:
  assumes "mono rnd" "rnd 0 = 0" "lo \<le> x" "x \<le> y" "y \<le> hi" "1 \<le> n"
  shows "timestep rnd cast n lo (rnd (hi - lo)) x \<le> timestep rnd cast n lo (rnd (hi - lo)) y"
proof (cases "rnd (hi - lo) = 0")
  case True
  then show ?thesis
    using timestep_const [OF assms(1,2), of lo x hi] timestep_const [OF assms(1,2), of lo y hi]
      assms(3,4,5) by simp
next
  case False
  define d where "d = rnd (hi - lo)"
  define k where "k = rnd (of_int (n - 1))"
  have "rnd 0 \<le> d" unfolding d_def using assms(3,4,5) by (intro monoD [OF assms(1)]) simp
  with False have d: "0 < d" by (simp add: assms(2) d_def)
  have "rnd 0 \<le> k" unfolding k_def using assms(6) by (intro monoD [OF assms(1)]) simp
  then have k: "0 \<le> k" by (simp add: assms(2))
  have "rnd (x - lo) \<le> rnd (y - lo)" using assms(4) by (intro monoD [OF assms(1)]) simp
  then have "rnd (x - lo) / d \<le> rnd (y - lo) / d" using d by (simp add: divide_right_mono)
  then have "rnd (rnd (x - lo) / d) \<le> rnd (rnd (y - lo) / d)" by (rule monoD [OF assms(1)])
  then have "rnd (rnd (x - lo) / d) * k \<le> rnd (rnd (y - lo) / d) * k"
    using k by (rule mult_right_mono)
  then have "rnd (rnd (rnd (x - lo) / d) * k) \<le> rnd (rnd (rnd (y - lo) / d) * k)"
    by (rule monoD [OF assms(1)])
  then have "round_half_even (rnd (rnd (rnd (x - lo) / d) * k))
      \<le> round_half_even (rnd (rnd (rnd (y - lo) / d) * k))"
    by (rule round_half_even_mono)
  moreover have "timestep rnd cast n lo (rnd (hi - lo)) z
      = clip_int 0 (n - 1) (round_half_even (rnd (rnd (rnd (z - lo) / d) * k)))" for z
    using d by (simp add: timestep_def fdiv_def d_def k_def)
  ultimately show ?thesis by (simp add: clip_int_mono)
qed

lemma stage5_single: "stage5 rnd ppf cast 1 m s = Inr [0]"
proof -
  obtain ts where ts: "stage5 rnd ppf cast 1 m s = Inr ts" "length ts = nat 1"
      "\<forall>x \<in> set ts. 0 \<le> x \<and> x \<le> 1 - 1"
    using stage5_ok [of 1 rnd ppf cast m s] by auto
  then obtain x where "ts = [x]" by (cases ts) auto
  with ts show ?thesis by auto
qed

lemma stage5_sorted:
  fixes rnd ppf :: "real \<Rightarrow> real"
  assumes n: "1 \<le> n" and s: "0 \<le> s" and rnd: "mono rnd" "rnd 0 = 0"
    and ppf: "mono_on {eps..1 - eps} ppf"
  shows "\<exists>ts. stage5 rnd ppf cast n m s = Inr ts \<and> sorted ts"
proof -
  obtain u where u: "fractions rnd n = Inr u"
    using fractions_ok [of n rnd] n by auto
  have "length u = nat n" using u by (rule fractions_length)
  with n have ne: "u \<noteq> []" by auto
  have su: "sorted u" using u rnd by (rule fractions_sorted)
  have ru: "set u \<subseteq> {eps..1 - eps}" using u by (rule fractions_range)
  define v where "v = warp rnd ppf m s u"
  define lo where "lo = Min (set v)"
  define hi where "hi = Max (set v)"
  have "sorted (map (\<lambda>x. rnd (m + rnd (s * ppf x))) u)"
    using su ru by (rule sorted_map_mono_on) (rule warp_mono_on [OF rnd(1) ppf s])
  then have sv: "sorted v" by (simp add: v_def warp_def)
  have bounds: "lo \<le> x \<and> x \<le> hi" if "x \<in> set v" for x
    using that by (simp add: lo_def hi_def)
  have "sorted (map (timestep rnd cast n lo (rnd (hi - lo))) v)"
    using sv subset_refl
  proof (rule sorted_map_mono_on)
    fix x y assume "x \<in> set v" "y \<in> set v" "x \<le> y"
    then show "timestep rnd cast n lo (rnd (hi - lo)) x \<le> timestep rnd cast n lo (rnd (hi - lo)) y"
      using bounds [of x] bounds [of y] by (intro timestep_mono rnd n) simp_all
  qed
  moreover have "stage5 rnd ppf cast n m s = Inr (map (timestep rnd cast n lo (rnd (hi - lo))) v)"
    using stage5_eq [OF u ne, of ppf cast m s] by (simp add: v_def lo_def hi_def)
  ultimately show ?thesis by simp
qed

lemma rnd_sign:
  fixes rnd :: "real \<Rightarrow> real"
  assumes "mono rnd" "\<forall>x. rnd x = 0 \<longleftrightarrow> x = 0"
  shows "x < 0 \<Longrightarrow> rnd x < 0" and "0 < x \<Longrightarrow> 0 < rnd x"
proof -
  have z: "rnd 0 = 0" using assms(2) by simp
  show "rnd x < 0" if "x < 0"
  proof -
    have "rnd x \<le> rnd 0" using that by (intro monoD [OF assms(1)]) simp
    moreover have "rnd x \<noteq> 0" using that assms(2) by simp
    ultimately show ?thesis using z by simp
  qed
  show "0 < rnd x" if "0 < x"
  proof -
    have "rnd 0 \<le> rnd x" using that by (intro monoD [OF assms(1)]) simp
    moreover have "rnd x \<noteq> 0" using that assms(2) by simp
    ultimately show ?thesis using z by simp
  qed
qed

lemma stage5_first:
  fixes rnd ppf :: "real \<Rightarrow> real"
  assumes n: "2 \<le> n" and s: "0 \<le> s" and rnd: "mono rnd" "\<forall>x. rnd x = 0 \<longleftrightarrow> x = 0"
    and ppf: "mono_on {eps..1 - eps} ppf"
    and ends: "rnd (m + rnd (s * ppf eps)) < rnd (m + rnd (s * ppf (1 - eps)))"
  shows "\<exists>ts. stage5 rnd ppf cast n m s = Inr (0 # ts)"
proof -
  have z: "rnd 0 = 0" using rnd(2) by simp
  define w where "w = (\<lambda>x. rnd (m + rnd (s * ppf x)))"
  obtain u' where u: "fractions rnd n = Inr (eps # u')"
    using fractions_hd [of n rnd] n z by auto
  have ru: "set (eps # u') \<subseteq> {eps..1 - eps}" using u by (rule fractions_range)
  have last: "1 - eps \<in> set (eps # u')" using n u by (rule fractions_last)
  define v where "v = warp rnd ppf m s (eps # u')"
  have v: "v = w eps # map w u'" by (simp add: v_def warp_def w_def)
  define lo where "lo = Min (set v)"
  define hi where "hi = Max (set v)"
  have "w eps \<le> y" if "y \<in> set v" for y
  proof -
    from that obtain x where x: "x \<in> set (eps # u')" "y = w x" by (auto simp: v)
    then have "x \<in> {eps..1 - eps}" using ru by blast
    then show ?thesis
      using warp_mono_on [OF rnd(1) ppf s, of eps x m] eps_le x(2) by (simp add: w_def)
  qed
  then have lo: "lo = w eps"
    unfolding lo_def by (intro Min_eqI) (simp_all add: v)
  from last have "w (1 - eps) \<in> w ` set (eps # u')" by (rule imageI)
  then have "w (1 - eps) \<in> set v" by (simp add: v)
  then have "w (1 - eps) \<le> hi" by (simp add: hi_def)
  with ends have "hi - lo \<noteq> 0" by (simp add: lo w_def)
  then have "rnd (hi - lo) \<noteq> 0" using rnd(2) by simp
  then have "timestep rnd cast n lo (rnd (hi - lo)) lo = 0"
    using n by (simp add: timestep_def fdiv_def z clip_int_def)
  moreover have "stage5 rnd ppf cast n m s = Inr (map (timestep rnd cast n lo (rnd (hi - lo))) v)"
    using stage5_eq [OF u, of ppf cast m s] by (simp add: v_def lo_def hi_def)
  ultimately show ?thesis by (simp add: v lo)
qed

lemma denominator_zero:
  fixes rnd ppf :: "real \<Rightarrow> real"
  assumes "fractions rnd n = Inr u" "u \<noteq> []" "rnd 0 = 0"
  shows "denominator rnd (warp rnd ppf m 0 u) = Inr 0"
proof -
  obtain a u' where "u = a # u'" using assms(2) by (cases u) auto
  then have "set (warp rnd ppf m 0 u) = {rnd m}"
    by (auto simp: warp_def assms(3))
  then show ?thesis using assms(2,3) by (simp add: denominator_def warp_def)
qed

section \<open>The instances of the parameters\<close>

lemma logistic_ppf_mono_on: "mono_on {eps..1 - eps} logistic_ppf"
proof (rule monotone_onI)
  fix x y :: real
  assume x: "x \<in> {eps..1 - eps}" and y: "y \<in> {eps..1 - eps}" and xy: "x \<le> y"
  have pos: "0 < x" "0 < y" "0 < 1 - x" "0 < 1 - y"
    using x y eps_pos by auto
  have "x / (1 - x) \<le> y / (1 - y)"
    using pos xy by (intro frac_le) simp_all
  moreover have "0 < x / (1 - x)" "0 < y / (1 - y)" using pos by simp_all
  ultimately show "logistic_ppf x \<le> logistic_ppf y"
    by (simp add: logistic_ppf_def)
qed

lemma logistic_ppf_eps: "logistic_ppf eps < 0"
proof -
  have "0 < eps / (1 - eps)" "eps / (1 - eps) < 1" by (simp_all add: eps_def)
  then show ?thesis unfolding logistic_ppf_def by (rule ln_less_zero)
qed

lemma logistic_ppf_one_minus_eps: "0 < logistic_ppf (1 - eps)"
proof -
  have "1 < (1 - eps) / (1 - (1 - eps))" by (simp add: eps_def)
  then show ?thesis unfolding logistic_ppf_def by (rule ln_gt_zero)
qed

lemma fl53_zero_iff_all: "\<forall>x. fl53 x = 0 \<longleftrightarrow> x = 0"
  by simp

lemma fl53_logistic_ends:
  "fl53 (0 + fl53 (1 / 2 * logistic_ppf eps)) \<noteq> fl53 (0 + fl53 (1 / 2 * logistic_ppf (1 - eps)))"
proof -
  have "fl53 (1 / 2 * logistic_ppf eps) < 0" "0 < fl53 (1 / 2 * logistic_ppf (1 - eps))"
    using logistic_ppf_eps logistic_ppf_one_minus_eps by (simp_all add: fl53_neg fl53_pos)
  then have "fl53 (0 + fl53 (1 / 2 * logistic_ppf eps)) < 0"
    "0 < fl53 (0 + fl53 (1 / 2 * logistic_ppf (1 - eps)))"
    by (simp_all add: fl53_neg fl53_pos)
  then show ?thesis by linarith
qed

section \<open>A shift that absorbs the warp, and exact arithmetic\<close>

lemma fl53_eval:
  assumes "0 < x" "2 powr of_int e \<le> x" "x < 2 powr of_int (e + 1)"
  shows "fl53 x = of_int (round_half_even (x / 2 powr of_int (e - 52))) * 2 powr of_int (e - 52)"
proof -
  have "\<lfloor>log 2 x\<rfloor> = e"
    using assms floor_log_eq_powr_iff [of x 2 e] by simp
  then show ?thesis using fl53_pos_eq [OF assms(1)] by simp
qed

lemma fl53_32: "fl53 32 = 32"
  using fl53_eval [of 32 5] by (simp add: powr_minus)

lemma fl53_below_2_60: "fl53 (2 ^ 60 - 32) = 2 ^ 60"
proof -
  have "round_half_even (9007199254740991 + 3 / 4) = 9007199254740992"
    by (simp add: round_half_even_def Let_def)
  then show ?thesis using fl53_eval [of "2 ^ 60 - 32" 59] by simp
qed

lemma fl53_above_2_60: "fl53 (2 ^ 60 + 32) = 2 ^ 60"
proof -
  have "round_half_even (4503599627370496 + 1 / 8) = 4503599627370496"
    by (simp add: round_half_even_def Let_def)
  then show ?thesis using fl53_eval [of "2 ^ 60 + 32" 60] by simp
qed

lemma fl53_absorbs:
  assumes "\<bar>y\<bar> \<le> 32"
  shows "fl53 (2 ^ 60 + y) = 2 ^ 60"
proof -
  have "fl53 (2 ^ 60 - 32) \<le> fl53 (2 ^ 60 + y)" "fl53 (2 ^ 60 + y) \<le> fl53 (2 ^ 60 + 32)"
    using assms by (auto intro!: monoD [OF fl53_mono])
  then show ?thesis by (simp only: fl53_below_2_60 fl53_above_2_60)
qed

lemma fl53_half_bounded:
  assumes "\<bar>p\<bar> \<le> 64"
  shows "\<bar>fl53 (1 / 2 * p)\<bar> \<le> 32"
proof -
  have "fl53 (- 32) \<le> fl53 (1 / 2 * p)" "fl53 (1 / 2 * p) \<le> fl53 32"
    using assms by (auto intro!: monoD [OF fl53_mono])
  then show ?thesis using fl53_minus [of 32] by (simp add: fl53_32)
qed

lemma fractions_two: "fractions fl53 2 = Inr [eps, 1 - eps]"
  using fractions_shape [of 2 fl53] by (simp add: clip_real_zero)

lemma stage5_collapsed:
  assumes "fractions fl53 2 = Inr u" "warp fl53 ppf m s u = [c, c]"
  shows "stage5 fl53 ppf cast 2 m s = Inr [clip_int 0 1 (cast NaN), clip_int 0 1 (cast NaN)]"
  by (simp add: stage5_def assms rescale_def denominator_def round_clip_def fdiv_def)

lemma stage5_absorbed:
  assumes "\<bar>ppf eps\<bar> \<le> 64" "\<bar>ppf (1 - eps)\<bar> \<le> 64"
  shows "stage5 fl53 ppf cast 2 (2 ^ 60) (1 / 2)
    = Inr [clip_int 0 1 (cast NaN), clip_int 0 1 (cast NaN)]"
proof -
  have h: "fl53 (2 ^ 60 + fl53 (1 / 2 * ppf x)) = 2 ^ 60" if "\<bar>ppf x\<bar> \<le> 64" for x
    using that by (intro fl53_absorbs fl53_half_bounded)
  have v: "warp fl53 ppf (2 ^ 60) (1 / 2) [eps, 1 - eps] = [2 ^ 60, 2 ^ 60]"
    unfolding warp_def list.map h [OF assms(1)] h [OF assms(2)] by (rule refl)
  show ?thesis using fractions_two v by (rule stage5_collapsed)
qed

lemma stage5_unshifted:
  assumes "ppf eps < 0" "0 < ppf (1 - eps)"
  shows "stage5 fl53 ppf cast 2 0 (1 / 2) = Inr [0, 1]"
proof -
  define a where "a = fl53 (fl53 (1 / 2 * ppf eps))"
  define b where "b = fl53 (fl53 (1 / 2 * ppf (1 - eps)))"
  have a: "a < 0" and b: "0 < b"
    using assms by (simp_all add: a_def b_def fl53_neg fl53_pos)
  have v: "warp fl53 ppf 0 (1 / 2) [eps, 1 - eps] = [a, b]"
    by (simp add: warp_def a_def b_def)
  have mm: "Min (set [a, b]) = a" "Max (set [a, b]) = b" using a b by simp_all
  have d: "fl53 (b - a) \<noteq> 0" using a b by simp
  show ?thesis
    using d
    by (simp add: stage5_def fractions_two v rescale_def denominator_def round_clip_def
        fdiv_def mm clip_int_def del: set_simps)
qed

lemma warp_exact_set:
  "set (warp (\<lambda>x. x) ppf m s u) = (\<lambda>x. s * ppf x + m) ` set u"
  by (auto simp: warp_def add.commute)

lemma stage5_exact:
  "stage5 (\<lambda>x. x) ppf cast n m s = stage5 (\<lambda>x. x) ppf cast n 0 s"
proof (cases "fractions (\<lambda>x. x) n")
  case (Inl e)
  then show ?thesis by (simp add: stage5_def)
next
  case (Inr u)
  show ?thesis
  proof (cases "u = []")
    case True
    then show ?thesis using Inr by (simp add: stage5_def warp_def)
  next
    case False
    have fin: "finite (set u)" "set u \<noteq> {}" using False by simp_all
    define A where "A = Min ((\<lambda>x. s * ppf x) ` set u)"
    define B where "B = Max ((\<lambda>x. s * ppf x) ` set u)"
    have mm: "Min (set (warp (\<lambda>x. x) ppf c s u)) = A + c"
      "Max (set (warp (\<lambda>x. x) ppf c s u)) = B + c" for c
      unfolding warp_exact_set A_def B_def
      using Min_add_commute [OF fin] Max_add_commute [OF fin] by simp_all
    have "stage5 (\<lambda>x. x) ppf cast n c s
        = Inr (map (\<lambda>x. timestep (\<lambda>x. x) cast n A (B - A) (s * ppf x)) u)" for c
      using stage5_eq [OF Inr False, of ppf cast c s]
      by (simp add: mm) (simp add: warp_def timestep_def)
    then show ?thesis by simp
  qed
qed

lemma logistic_ppf_bounds:
  "\<bar>logistic_ppf eps\<bar> \<le> 64" "\<bar>logistic_ppf (1 - eps)\<bar> \<le> 64"
proof -
  have "ln (2 ^ 52 - 1 :: real) \<le> ln (2 ^ 52)" by simp
  also have "\<dots> = 52 * ln 2" using ln_realpow [of 2 52] by simp
  also have "\<dots> \<le> 64" using ln_2_less_1 by simp
  finally have b: "ln (2 ^ 52 - 1 :: real) \<le> 64" .
  have c: "0 \<le> ln (2 ^ 52 - 1 :: real)" by simp
  have hi: "logistic_ppf (1 - eps) = ln (2 ^ 52 - 1)"
    by (simp add: logistic_ppf_def eps_def field_simps)
  have "eps / (1 - eps) = inverse (2 ^ 52 - 1)"
    by (simp add: eps_def field_simps)
  then have lo: "logistic_ppf eps = - ln (2 ^ 52 - 1)"
    unfolding logistic_ppf_def by (simp only: ln_inverse)
  show "\<bar>logistic_ppf eps\<bar> \<le> 64" "\<bar>logistic_ppf (1 - eps)\<bar> \<le> 64"
    using b c by (simp_all only: lo hi abs_minus_cancel abs_of_nonneg)
qed

lemma clip_cast_x86_64: "clip_int 0 1 (cast_x86_64 x) = 0"
  by (simp add: clip_int_def cast_x86_64_def)

lemma warp_zero_scale: "warp fl53 ppf 0 0 [eps, 1 - eps] = [0, 0]"
  by (simp add: warp_def)

section \<open>Exact arithmetic: the fractions and the rescaling\<close>

lemma clip_real_reflect:
  "clip_real eps (1 - eps) (1 - x) = 1 - clip_real eps (1 - eps) x"
  using eps_le by (auto simp: clip_real_def min_def max_def)

lemma fractions_exact:
  assumes "2 \<le> n"
  shows "fractions (\<lambda>x. x) n
    = Inr (map (\<lambda>i. clip_real eps (1 - eps) (of_nat i / of_nat (nat (n - 1)))) [0..<Suc (nat (n - 1))])"
proof -
  have "of_int (n - 1) = (of_nat (nat (n - 1)) :: real)" using assms by simp
  moreover have "(of_nat (nat (n - 1)) :: real) \<noteq> 0" using assms by simp
  ultimately show ?thesis
    using fractions_shape [OF assms, of "\<lambda>x. x"] by (simp add: clip_real_one)
qed

lemma Min_neg_Max:
  fixes S :: "real set"
  assumes "finite S" "S \<noteq> {}" "\<And>x. x \<in> S \<Longrightarrow> - x \<in> S"
  shows "Min S = - Max S"
proof (rule Min_eqI)
  show "finite S" by fact
  show "- Max S \<in> S" using assms(3) [OF Max_in [OF assms(1,2)]] .
  fix y assume "y \<in> S"
  then have "- y \<in> S" by (rule assms(3))
  then have "- y \<le> Max S" using assms(1) by simp
  then show "- Max S \<le> y" by simp
qed

lemma rescale_exact:
  assumes "v \<noteq> []" "Max (set v) - Min (set v) \<noteq> 0"
  shows "rescale (\<lambda>x. x) n v
    = Inr (map (\<lambda>x. Fin ((x - Min (set v)) / (Max (set v) - Min (set v)) * of_int (n - 1))) v)"
  using assms by (simp add: rescale_def denominator_def fdiv_def Let_def)

section \<open>The relative error of the rounding\<close>

lemma round_half_even_error: "\<bar>of_int (round_half_even y) - y\<bar> \<le> 1 / 2"
  using round_half_even_cases [of y] by (auto simp: abs_le_iff)

lemma fl53_rel_error_pos:
  assumes "0 < x"
  shows "\<bar>fl53 x - x\<bar> \<le> x / 2 ^ 53"
proof -
  define e where "e = \<lfloor>log 2 x\<rfloor>"
  define q :: real where "q = 2 powr of_int (e - 52)"
  have q: "0 < q" by (simp add: q_def)
  have lo: "2 powr of_int e = 2 ^ 52 * q"
    by (simp add: q_def powr_diff)
  have "2 ^ 52 * q \<le> x" using log2_bracket(1) [OF assms] lo by (simp add: e_def)
  have fl: "fl53 x = of_int (round_half_even (x / q)) * q"
    using fl53_pos_eq [OF assms] by (simp add: q_def e_def)
  have "fl53 x - x = (of_int (round_half_even (x / q)) - x / q) * q"
    using q by (simp add: fl field_simps)
  then have "\<bar>fl53 x - x\<bar> = \<bar>of_int (round_half_even (x / q)) - x / q\<bar> * q"
    using q by (simp add: abs_mult)
  also have "\<dots> \<le> 1 / 2 * q"
    using round_half_even_error [of "x / q"] q by (intro mult_right_mono) simp_all
  also have "\<dots> \<le> x / 2 ^ 53" using \<open>2 ^ 52 * q \<le> x\<close> by simp
  finally show ?thesis .
qed

lemma fl53_rel_error: "\<bar>fl53 x - x\<bar> \<le> \<bar>x\<bar> / 2 ^ 53"
proof -
  consider "0 < x" | "x = 0" | "x < 0" by linarith
  then show ?thesis
  proof cases
    case 1
    then show ?thesis using fl53_rel_error_pos [of x] by simp
  next
    case 2
    then show ?thesis by simp
  next
    case 3
    then have "\<bar>fl53 (- x) - (- x)\<bar> \<le> (- x) / 2 ^ 53"
      by (intro fl53_rel_error_pos) simp
    then show ?thesis using 3 by (simp add: fl53_minus abs_if split: if_splits)
  qed
qed

lemma fl53_rel_error_all: "\<forall>x. \<bar>fl53 x - x\<bar> \<le> \<bar>x\<bar> / 2 ^ 53"
  using fl53_rel_error by blast

lemma rel_error_zero_iff:
  fixes rnd :: "real \<Rightarrow> real"
  assumes "\<forall>x. \<bar>rnd x - x\<bar> \<le> \<bar>x\<bar> / 2 ^ 53"
  shows "rnd x = 0 \<longleftrightarrow> x = 0"
proof
  assume "rnd x = 0"
  then have "\<bar>x\<bar> \<le> \<bar>x\<bar> / 2 ^ 53" using assms [rule_format, of x] by simp
  then show "x = 0" by simp
next
  assume "x = 0"
  then show "rnd x = 0" using assms [rule_format, of 0] by simp
qed

lemma warped_ends_differ:
  fixes rnd :: "real \<Rightarrow> real"
  assumes rel: "\<forall>x. \<bar>rnd x - x\<bar> \<le> \<bar>x\<bar> / 2 ^ 53"
    and s: "s \<noteq> 0" and m: "\<bar>m\<bar> \<le> 2 ^ 50 * \<bar>s\<bar>"
    and p: "p0 \<le> - 1" "1 \<le> p1"
  shows "rnd (m + rnd (s * p0)) \<noteq> rnd (m + rnd (s * p1))"
proof -
  define z0 where "z0 = s * p0"
  define z1 where "z1 = s * p1"
  define a where "a = rnd z0"
  define b where "b = rnd z1"
  have ra: "\<bar>a - z0\<bar> \<le> \<bar>z0\<bar> / 2 ^ 53" and rb: "\<bar>b - z1\<bar> \<le> \<bar>z1\<bar> / 2 ^ 53"
    and rx: "\<bar>rnd (m + a) - (m + a)\<bar> \<le> \<bar>m + a\<bar> / 2 ^ 53"
    and ry: "\<bar>rnd (m + b) - (m + b)\<bar> \<le> \<bar>m + b\<bar> / 2 ^ 53"
    using rel by (simp_all add: a_def b_def)
  consider "0 < s" | "s < 0" using s by linarith
  then have "rnd (m + a) \<noteq> rnd (m + b)"
  proof cases
    case 1
    have "z0 \<le> - s" "s \<le> z1"
      using 1 p mult_left_mono [of p0 "- 1" s] mult_left_mono [of 1 p1 s]
      by (simp_all add: z0_def z1_def)
    then show ?thesis using ra rb rx ry m 1 by (simp add: abs_if split: if_splits) 
  next
    case 2
    have "- s \<le> z0" "z1 \<le> s"
      using 2 p mult_left_mono_neg [of p0 "- 1" s] mult_left_mono_neg [of 1 p1 s]
      by (simp_all add: z0_def z1_def)
    then show ?thesis using ra rb rx ry m 2 by (simp add: abs_if split: if_splits)
  qed
  then show ?thesis by (simp add: a_def b_def z0_def z1_def)
qed

lemma logistic_ppf_ends:
  "logistic_ppf eps \<le> - 1" "1 \<le> logistic_ppf (1 - eps)"
proof -
  have "exp 1 \<le> (3::real)" by (rule exp_le)
  then have "exp 1 \<le> (2 ^ 52 - 1 :: real)" by simp
  then have b: "1 \<le> ln (2 ^ 52 - 1 :: real)" by (subst ln_ge_iff) simp_all
  have hi: "logistic_ppf (1 - eps) = ln (2 ^ 52 - 1)"
    by (simp add: logistic_ppf_def eps_def field_simps)
  have "eps / (1 - eps) = inverse (2 ^ 52 - 1)"
    by (simp add: eps_def field_simps)
  then have lo: "logistic_ppf eps = - ln (2 ^ 52 - 1)"
    unfolding logistic_ppf_def by (simp only: ln_inverse)
  show "logistic_ppf eps \<le> - 1" "1 \<le> logistic_ppf (1 - eps)"
    using b by (simp_all only: lo hi neg_le_iff_le)
qed

lemma warp_absorbed:
  "warp fl53 logistic_ppf (2 ^ 60) (1 / 2) [eps, 1 - eps] = [2 ^ 60, 2 ^ 60]"
proof -
  have h: "fl53 (2 ^ 60 + fl53 (1 / 2 * logistic_ppf x)) = 2 ^ 60" if "\<bar>logistic_ppf x\<bar> \<le> 64" for x
    using that by (intro fl53_absorbs fl53_half_bounded)
  show ?thesis
    unfolding warp_def list.map h [OF logistic_ppf_bounds(1)] h [OF logistic_ppf_bounds(2)]
    by (rule refl)
qed

section \<open>Doubles that overflow: order, minimum and maximum\<close>

lemma fle_refl: "x \<noteq> NaN \<Longrightarrow> fle x x"
  by (cases x) simp_all

lemma fle_trans: "fle x y \<Longrightarrow> fle y z \<Longrightarrow> fle x z"
  by (cases x; cases y; cases z) simp_all

lemma fle_total: "x \<noteq> NaN \<Longrightarrow> y \<noteq> NaN \<Longrightarrow> fle x y \<or> fle y x"
  by (cases x; cases y) auto

lemma fle_not_NaN: "fle x y \<Longrightarrow> x \<noteq> NaN \<and> y \<noteq> NaN"
  by (cases x; cases y) simp_all

lemma max_double_pos: "0 < max_double" and max_double_ge: "2 ^ 63 \<le> max_double" "1 \<le> max_double"
  by (simp_all add: max_double_def)

lemma to_double_not_NaN [simp]: "to_double rnd x \<noteq> NaN"
  by (simp add: to_double_def Let_def)

lemma to_double_mono:
  fixes rnd :: "real \<Rightarrow> real"
  assumes "mono rnd" "x \<le> y"
  shows "fle (to_double rnd x) (to_double rnd y)"
  using monoD [OF assms] max_double_pos by (auto simp: to_double_def Let_def)

lemma to_double_fin:
  fixes rnd :: "real \<Rightarrow> real"
  assumes "mono rnd" "rnd 0 = 0" "rnd max_double = max_double" "0 \<le> x" "x \<le> max_double"
  shows "to_double rnd x = Fin (rnd x)" and "0 \<le> rnd x" and "rnd x \<le> max_double"
proof -
  show a: "0 \<le> rnd x" using monoD [OF assms(1,4)] assms(2) by simp
  show b: "rnd x \<le> max_double" using monoD [OF assms(1,5)] assms(3) by simp
  show "to_double rnd x = Fin (rnd x)"
    using a b max_double_pos by (simp add: to_double_def Let_def)
qed

lemma to_double_zero:
  fixes rnd :: "real \<Rightarrow> real"
  assumes "rnd 0 = 0"
  shows "to_double rnd 0 = Fin 0"
  using assms max_double_pos by (simp add: to_double_def Let_def)

lemma fle_PInf [simp]: "x \<noteq> NaN \<Longrightarrow> fle x PInf"
  by (cases x) simp_all

lemma fle_NInf [simp]: "y \<noteq> NaN \<Longrightarrow> fle NInf y"
  by (cases y) simp_all

lemma fadd_Fin_mono:
  fixes rnd :: "real \<Rightarrow> real"
  assumes "mono rnd" "fle a b"
  shows "fle (fadd rnd (Fin m) a) (fadd rnd (Fin m) b)"
  using assms(2) to_double_mono [OF assms(1)]
  by (cases a; cases b) (simp_all add: fle_refl)

lemma fadd_Fin_not_NaN: "a \<noteq> NaN \<Longrightarrow> fadd rnd (Fin m) a \<noteq> NaN"
  by (cases a) simp_all

lemma warp_ieee_mono:
  fixes rnd ppf :: "real \<Rightarrow> real"
  assumes "mono rnd" "mono_on {eps..1 - eps} ppf" "0 \<le> s"
    "x \<in> {eps..1 - eps}" "y \<in> {eps..1 - eps}" "x \<le> y"
  shows "fle (fadd rnd (Fin m) (fmul_ieee rnd (Fin s) (Fin (ppf x))))
             (fadd rnd (Fin m) (fmul_ieee rnd (Fin s) (Fin (ppf y))))"
proof -
  have "ppf x \<le> ppf y" using assms(2,4,5,6) by (rule monotone_onD)
  then have "s * ppf x \<le> s * ppf y" using assms(3) by (simp add: mult_left_mono)
  then have "fle (to_double rnd (s * ppf x)) (to_double rnd (s * ppf y))"
    by (rule to_double_mono [OF assms(1)])
  then show ?thesis using fadd_Fin_mono [OF assms(1)] by simp
qed

lemma sorted_wrt_fle_map:
  assumes "sorted xs" "set xs \<subseteq> S" "\<And>x y. x \<in> S \<Longrightarrow> y \<in> S \<Longrightarrow> x \<le> y \<Longrightarrow> fle (f x) (f y)"
  shows "sorted_wrt fle (map f xs)"
  using assms(1,2)
proof (induction xs)
  case Nil
  show ?case by simp
next
  case (Cons a xs)
  have "\<forall>y \<in> set xs. fle (f a) (f y)"
  proof
    fix y assume y: "y \<in> set xs"
    with Cons.prems have "a \<le> y" "a \<in> S" "y \<in> S" by auto
    then show "fle (f a) (f y)" using assms(3) by blast
  qed
  moreover have "sorted_wrt fle (map f xs)" using Cons by simp
  ultimately show ?case by simp
qed

lemma sorted_map_fle:
  assumes "sorted_wrt fle v" "\<And>x y. x \<in> set v \<Longrightarrow> y \<in> set v \<Longrightarrow> fle x y \<Longrightarrow> g x \<le> (g y :: int)"
  shows "sorted (map g v)"
  using assms
proof (induction v)
  case Nil
  show ?case by simp
next
  case (Cons a v)
  have "\<forall>y \<in> set v. g a \<le> g y"
  proof
    fix y assume y: "y \<in> set v"
    then have "fle a y" using Cons.prems(1) by simp
    then show "g a \<le> g y" using Cons.prems(2) [of a y] y by simp
  qed
  moreover have "sorted (map g v)" using Cons by simp
  ultimately show ?case by simp
qed

lemma fmin_cases:
  assumes "a \<noteq> NaN" "x \<noteq> NaN"
  shows "fmin a x \<noteq> NaN" "fmin a x = a \<or> fmin a x = x" "fle (fmin a x) a" "fle (fmin a x) x"
  using assms fle_total [OF assms] by (auto simp: fmin_def fle_refl)

lemma fmax_cases:
  assumes "a \<noteq> NaN" "x \<noteq> NaN"
  shows "fmax a x \<noteq> NaN" "fmax a x = a \<or> fmax a x = x" "fle a (fmax a x)" "fle x (fmax a x)"
  using assms fle_total [OF assms] by (auto simp: fmax_def fle_refl)

lemma fold_fmin:
  assumes "a \<noteq> NaN" "NaN \<notin> set xs"
  shows "fold fmin xs a \<in> insert a (set xs) \<and> (\<forall>y \<in> insert a (set xs). fle (fold fmin xs a) y)"
  using assms
proof (induction xs arbitrary: a)
  case Nil
  then show ?case by (simp add: fle_refl)
next
  case (Cons x xs)
  have x: "x \<noteq> NaN" and xs: "NaN \<notin> set xs" using Cons.prems(2) by auto
  note c = fmin_cases [OF x Cons.prems(1)]
  define r where "r = fold fmin xs (fmin x a)"
  have ih: "r \<in> insert (fmin x a) (set xs)" "\<forall>y \<in> insert (fmin x a) (set xs). fle r y"
    using Cons.IH [OF c(1) xs] by (simp_all add: r_def)
  have m: "fle r (fmin x a)" using ih(2) by simp
  have "fle r a" "fle r x" using m c(3,4) by (blast intro: fle_trans)+
  moreover have "r \<in> insert a (insert x (set xs))" using ih(1) c(2) by auto
  moreover have "\<forall>y \<in> set xs. fle r y" using ih(2) by simp
  ultimately show ?case by (simp add: r_def)
qed

lemma fold_fmax:
  assumes "a \<noteq> NaN" "NaN \<notin> set xs"
  shows "fold fmax xs a \<in> insert a (set xs) \<and> (\<forall>y \<in> insert a (set xs). fle y (fold fmax xs a))"
  using assms
proof (induction xs arbitrary: a)
  case Nil
  then show ?case by (simp add: fle_refl)
next
  case (Cons x xs)
  have x: "x \<noteq> NaN" and xs: "NaN \<notin> set xs" using Cons.prems(2) by auto
  note c = fmax_cases [OF x Cons.prems(1)]
  define r where "r = fold fmax xs (fmax x a)"
  have ih: "r \<in> insert (fmax x a) (set xs)" "\<forall>y \<in> insert (fmax x a) (set xs). fle y r"
    using Cons.IH [OF c(1) xs] by (simp_all add: r_def)
  have m: "fle (fmax x a) r" using ih(2) by simp
  have "fle a r" "fle x r" using m c(3,4) by (blast intro: fle_trans)+
  moreover have "r \<in> insert a (insert x (set xs))" using ih(1) c(2) by auto
  moreover have "\<forall>y \<in> set xs. fle y r" using ih(2) by simp
  ultimately show ?case by (simp add: r_def)
qed

lemma amin_amax:
  assumes "v \<noteq> []" "NaN \<notin> set v"
  shows "\<exists>lo hi. amin v = Inr lo \<and> amax v = Inr hi \<and> lo \<in> set v \<and> hi \<in> set v
           \<and> (\<forall>x \<in> set v. fle lo x \<and> fle x hi)"
proof -
  obtain a xs where v: "v = a # xs" using assms(1) by (cases v) auto
  then have a: "a \<noteq> NaN" and xs: "NaN \<notin> set xs" using assms(2) by auto
  show ?thesis using fold_fmin [OF a xs] fold_fmax [OF a xs] by (simp add: v)
qed

section \<open>Doubles that overflow: stage 5 is sorted\<close>

lemma fsub_Fin_mono:
  fixes rnd :: "real \<Rightarrow> real"
  assumes "mono rnd" "fle x y"
  shows "fle (fsub rnd x (Fin l)) (fsub rnd y (Fin l))"
  using assms(2) to_double_mono [OF assms(1)]
  by (cases x; cases y) (simp_all add: fsub_def)

lemma fsub_Fin_nonneg:
  fixes rnd :: "real \<Rightarrow> real"
  assumes "mono rnd" "rnd 0 = 0" "fle (Fin l) x"
  shows "fle (Fin 0) (fsub rnd x (Fin l))"
proof -
  have "fle (fsub rnd (Fin l) (Fin l)) (fsub rnd x (Fin l))"
    using assms(1,3) by (rule fsub_Fin_mono)
  then show ?thesis using assms(2) by (simp add: fsub_def to_double_zero)
qed

lemma scale_fin:
  fixes rnd :: "real \<Rightarrow> real"
  assumes "mono rnd" "rnd 0 = 0" "rnd max_double = max_double" "1 \<le> n" "n \<le> 2 ^ 63"
  shows "to_double rnd (of_int (n - 1)) = Fin (rnd (of_int (n - 1)))"
    and "0 \<le> rnd (of_int (n - 1))" and "rnd (of_int (n - 1)) \<le> max_double"
proof -
  have "(of_int (n - 1) :: real) \<le> of_int (2 ^ 63)" using assms(5) by simp
  then have b: "(of_int (n - 1) :: real) \<le> max_double" using max_double_ge(1) by simp
  have a: "0 \<le> (of_int (n - 1) :: real)" using assms(4) by simp
  show "to_double rnd (of_int (n - 1)) = Fin (rnd (of_int (n - 1)))"
    using assms(1,2,3) a b by (rule to_double_fin(1))
  show "0 \<le> rnd (of_int (n - 1))"
    using assms(1,2,3) a b by (rule to_double_fin(2))
  show "rnd (of_int (n - 1)) \<le> max_double"
    using assms(1,2,3) a b by (rule to_double_fin(3))
qed

lemma quotient_timestep_mono:
  fixes rnd :: "real \<Rightarrow> real"
  assumes rnd: "mono rnd" "rnd 0 = 0" "rnd 1 = 1" "rnd max_double = max_double"
    and n: "1 \<le> n" "n \<le> 2 ^ 63"
    and pq: "fle (Fin 0) p" "fle p q" "fle q d"
  shows "quotient_timestep rnd cast n d p \<le> quotient_timestep rnd cast n d q"
proof -
  define kk where "kk = rnd (of_int (n - 1))"
  have k: "to_double rnd (of_int (n - 1)) = Fin kk" "0 \<le> kk" "kk \<le> max_double"
    using scale_fin [OF rnd(1,2,4) n] by (simp_all add: kk_def)
  have k': "to_double rnd (real_of_int n - 1) = Fin kk" using k(1) by simp
  have zero: "to_double rnd 0 = Fin 0" using rnd(2) by (rule to_double_zero)
  show ?thesis
  proof (cases d)
    case NaN
    then show ?thesis using pq(3) by (cases q) simp_all
  next
    case NInf
    then have "q = NInf" using pq(3) by (cases q) simp_all
    then have "p = NInf" using pq(2) by (cases p) simp_all
    then show ?thesis using pq(1) by simp
  next
    case PInf
    have fin: "quotient_timestep rnd cast n d (Fin b) = 0" for b
      using n(1) by (simp add: quotient_timestep_def PInf k' zero clip_int_def)
    have inf: "0 \<le> quotient_timestep rnd cast n d PInf"
      using n(1) by (simp add: quotient_timestep_def clip_int_def)
    show ?thesis
    proof (cases q)
      case (Fin b')
      then obtain b where "p = Fin b" using pq(2) pq(1) by (cases p) simp_all
      then show ?thesis using Fin fin by simp
    next
      case PInf
      then show ?thesis using pq(1) fin inf by (cases p) simp_all
    next
      case NInf
      then show ?thesis using pq(2) pq(1) by (cases p) simp_all
    next
      case NaN
      then show ?thesis using pq(2) by (cases p) simp_all
    qed
  next
    case (Fin dd)
    have "q \<noteq> NInf"
    proof
      assume "q = NInf"
      then have "p = NInf" using pq(2) by (cases p) simp_all
      then show False using pq(1) by simp
    qed
    then obtain b' where q: "q = Fin b'" "b' \<le> dd" using pq(3) Fin by (cases q) simp_all
    obtain b where p: "p = Fin b" "b \<le> b'" "0 \<le> b" using pq(1,2) q by (cases p) simp_all
    show ?thesis
    proof (cases "dd = 0")
      case True
      then have "p = q" using p q by simp
      then show ?thesis by simp
    next
      case False
      then have dd: "0 < dd" using p q by simp
      have val: "quotient_timestep rnd cast n d (Fin c)
          = clip_int 0 (n - 1) (round_half_even (rnd (rnd (c / dd) * kk)))"
        and nonneg: "0 \<le> rnd (c / dd)"
        if c: "0 \<le> c" "c \<le> dd" for c
      proof -
        have r: "0 \<le> c / dd" "c / dd \<le> 1" using c dd by simp_all
        then have "c / dd \<le> max_double" using max_double_ge(2) by simp
        then have f1: "to_double rnd (c / dd) = Fin (rnd (c / dd))" and r0: "0 \<le> rnd (c / dd)"
          using to_double_fin [OF rnd(1,2,4) r(1)] by simp_all
        have r1: "rnd (c / dd) \<le> 1" using monoD [OF rnd(1) r(2)] rnd(3) by simp
        have "rnd (c / dd) * kk \<le> 1 * kk" using r1 k(2) by (rule mult_right_mono)
        then have "0 \<le> rnd (c / dd) * kk" "rnd (c / dd) * kk \<le> max_double"
          using r0 k(2,3) by simp_all
        then have f2: "to_double rnd (rnd (c / dd) * kk) = Fin (rnd (rnd (c / dd) * kk))"
          using to_double_fin [OF rnd(1,2,4)] by simp
        show "quotient_timestep rnd cast n d (Fin c)
          = clip_int 0 (n - 1) (round_half_even (rnd (rnd (c / dd) * kk)))"
          using dd by (simp add: quotient_timestep_def Fin k' f1 f2)
        show "0 \<le> rnd (c / dd)" by (rule r0)
      qed
      have "b / dd \<le> b' / dd" using p(2) dd by (simp add: divide_right_mono)
      then have "rnd (b / dd) \<le> rnd (b' / dd)" by (rule monoD [OF rnd(1)])
      then have "rnd (b / dd) * kk \<le> rnd (b' / dd) * kk" using k(2) by (rule mult_right_mono)
      then have "rnd (rnd (b / dd) * kk) \<le> rnd (rnd (b' / dd) * kk)" by (rule monoD [OF rnd(1)])
      then have "round_half_even (rnd (rnd (b / dd) * kk))
          \<le> round_half_even (rnd (rnd (b' / dd) * kk))"
        by (rule round_half_even_mono)
      then show ?thesis
        using val [of b] val [of b'] p q by (simp add: clip_int_mono)
    qed
  qed
qed

lemma timestep_ieee_final:
  "timestep_ieee rnd cast n lo d x = quotient_timestep rnd cast n d (fsub rnd x lo)"
  by (simp add: timestep_ieee_def quotient_timestep_def)

lemma timestep_ieee_NInf:
  assumes "z \<noteq> NaN" "hi \<noteq> NaN"
  shows "timestep_ieee rnd cast n NInf (fsub rnd hi NInf) z = clip_int 0 (n - 1) (cast NaN)"
  using assms by (cases z; cases hi) (simp_all add: timestep_ieee_def fsub_def)

lemma timestep_ieee_mono:
  fixes rnd :: "real \<Rightarrow> real"
  assumes rnd: "mono rnd" "rnd 0 = 0" "rnd 1 = 1" "rnd max_double = max_double"
    and n: "1 \<le> n" "n \<le> 2 ^ 63"
    and b: "fle lo x" "fle x y" "fle y hi"
  shows "timestep_ieee rnd cast n lo (fsub rnd hi lo) x
      \<le> timestep_ieee rnd cast n lo (fsub rnd hi lo) y"
proof (cases lo)
  case (Fin l)
  have "fle (Fin 0) (fsub rnd x (Fin l))"
    using rnd(1,2) b(1) unfolding Fin by (rule fsub_Fin_nonneg)
  moreover have "fle (fsub rnd x (Fin l)) (fsub rnd y (Fin l))"
    "fle (fsub rnd y (Fin l)) (fsub rnd hi (Fin l))"
    using b(2,3) by (simp_all add: fsub_Fin_mono [OF rnd(1)])
  ultimately show ?thesis
    unfolding timestep_ieee_final Fin by (rule quotient_timestep_mono [OF rnd n])
next
  case PInf
  then have "x = PInf" using b(1) by (cases x) simp_all
  then have "y = PInf" using b(2) by (cases y) simp_all
  then show ?thesis using \<open>x = PInf\<close> by simp
next
  case NInf
  have "x \<noteq> NaN" "y \<noteq> NaN" "hi \<noteq> NaN" using b fle_not_NaN by blast+
  then show ?thesis unfolding NInf by (simp add: timestep_ieee_NInf)
next
  case NaN
  then show ?thesis using b(1) by simp
qed

lemma stage5_ieee_eq:
  assumes "fractions rnd n = Inr u" "amin (warp_ieee rnd ppf m s u) = Inr lo"
    "amax (warp_ieee rnd ppf m s u) = Inr hi"
  shows "stage5_ieee rnd ppf cast n m s
    = Inr (map (timestep_ieee rnd cast n lo (fsub rnd hi lo)) (warp_ieee rnd ppf m s u))"
  using assms
  by (simp add: stage5_ieee_def rescale_ieee_def round_clip_def Let_def timestep_ieee_def)

lemma stage5_ieee_sorted:
  fixes rnd ppf :: "real \<Rightarrow> real"
  assumes n: "1 \<le> n" "n \<le> 2 ^ 63" and s: "0 \<le> s"
    and rnd: "mono rnd" "rnd 0 = 0" "rnd 1 = 1" "rnd max_double = max_double"
    and ppf: "mono_on {eps..1 - eps} ppf"
  shows "\<exists>ts. stage5_ieee rnd ppf cast n m s = Inr ts \<and> sorted ts"
proof -
  obtain u where u: "fractions rnd n = Inr u"
    using fractions_ok [of n rnd] n by auto
  have "length u = nat n" using u by (rule fractions_length)
  with n have ne: "u \<noteq> []" by auto
  have su: "sorted u" using u rnd(1,2) by (rule fractions_sorted)
  have ru: "set u \<subseteq> {eps..1 - eps}" using u by (rule fractions_range)
  define v where "v = warp_ieee rnd ppf m s u"
  have "sorted_wrt fle (map (\<lambda>x. fadd rnd (Fin m) (fmul_ieee rnd (Fin s) (Fin (ppf x)))) u)"
    using su ru by (rule sorted_wrt_fle_map) (rule warp_ieee_mono [OF rnd(1) ppf s])
  then have sv: "sorted_wrt fle v" by (simp add: v_def warp_ieee_def)
  have "NaN \<noteq> fadd rnd (Fin m) (fmul_ieee rnd (Fin s) (Fin (ppf x)))" for x
    using fadd_Fin_not_NaN [of "to_double rnd (s * ppf x)" rnd m] by simp
  then have nn: "NaN \<notin> set v" by (auto simp: v_def warp_ieee_def)
  have "v \<noteq> []" using ne by (simp add: v_def warp_ieee_def)
  then obtain lo hi where lh: "amin v = Inr lo" "amax v = Inr hi"
    and bounds: "\<forall>x \<in> set v. fle lo x \<and> fle x hi"
    using amin_amax [OF _ nn] by blast
  have "sorted (map (timestep_ieee rnd cast n lo (fsub rnd hi lo)) v)"
    using sv
  proof (rule sorted_map_fle)
    fix x y assume "x \<in> set v" "y \<in> set v" "fle x y"
    then show "timestep_ieee rnd cast n lo (fsub rnd hi lo) x
        \<le> timestep_ieee rnd cast n lo (fsub rnd hi lo) y"
      using bounds by (intro timestep_ieee_mono [OF rnd n]) simp_all
  qed
  moreover have "stage5_ieee rnd ppf cast n m s
      = Inr (map (timestep_ieee rnd cast n lo (fsub rnd hi lo)) v)"
    using stage5_ieee_eq [OF u, of ppf m s lo hi cast] lh by (simp add: v_def)
  ultimately show ?thesis by simp
qed

section \<open>The rounding of binary64\<close>

lemma fl64_zero [simp]: "fl64 0 = 0"
  by (simp add: fl64_def)

lemma fl64_minus: "fl64 (- x) = - fl64 x"
  by (simp add: fl64_def Let_def sgn_minus)

lemma fl64_normal:
  assumes "2 powr (- 1022) \<le> \<bar>x\<bar>"
  shows "fl64 x = fl53 x"
proof -
  have "0 < \<bar>x\<bar>" using assms powr_gt_zero [of 2 "- 1022"] by linarith
  then have "- 1022 \<le> log 2 \<bar>x\<bar>" using assms by (simp add: le_log_iff)
  then have "- 1022 \<le> \<lfloor>log 2 \<bar>x\<bar>\<rfloor>" by (simp add: le_floor_iff)
  then have "max \<lfloor>log 2 \<bar>x\<bar>\<rfloor> (- 1022) = \<lfloor>log 2 \<bar>x\<bar>\<rfloor>" by simp
  then show ?thesis by (simp add: fl64_def fl53_def)
qed

lemma fl64_subnormal:
  assumes "0 < x" "x < 2 powr (- 1022)"
  shows "fl64 x = of_int (round_half_even (x / 2 powr (- 1074))) * 2 powr (- 1074)"
proof -
  have "log 2 x < - 1022" using assms by (simp add: log_less_iff)
  then have "\<lfloor>log 2 x\<rfloor> < - 1022" by (simp add: floor_less_iff)
  then have "max \<lfloor>log 2 x\<rfloor> (- 1022) = - 1022" by simp
  then show ?thesis using assms(1) by (simp add: fl64_def Let_def)
qed

lemma fl64_subnormal_bounds:
  assumes "0 < x" "x < 2 powr (- 1022)"
  shows "0 \<le> fl64 x" and "fl64 x \<le> 2 powr (- 1022)"
proof -
  define Q :: real where "Q = 2 powr (- 1074)"
  have Q: "0 < Q" by (simp add: Q_def)
  have t: "2 powr (- 1022) = 2 ^ 52 * Q"
    unfolding Q_def by (simp add: powr_minus field_simps)
  have fl: "fl64 x = of_int (round_half_even (x / Q)) * Q"
    using fl64_subnormal [OF assms] by (simp add: Q_def)
  have "of_int 0 \<le> x / Q" "x / Q \<le> of_int (2 ^ 52)"
    using assms Q t by (simp_all add: field_simps)
  then have "0 \<le> round_half_even (x / Q)" "round_half_even (x / Q) \<le> 2 ^ 52"
    using round_half_even_mono [of "of_int 0" "x / Q"]
      round_half_even_mono [of "x / Q" "of_int (2 ^ 52)"]
    unfolding round_half_even_of_int by simp_all
  then have "0 \<le> (of_int (round_half_even (x / Q)) :: real)"
    "(of_int (round_half_even (x / Q)) :: real) \<le> 2 ^ 52"
    by (simp, metis of_int_le_iff of_int_numeral of_int_power)
  then have "0 \<le> of_int (round_half_even (x / Q)) * Q"
    "of_int (round_half_even (x / Q)) * Q \<le> 2 ^ 52 * Q"
    using Q by simp_all
  then show "0 \<le> fl64 x" and "fl64 x \<le> 2 powr (- 1022)" by (simp_all add: fl t)
qed

lemma fl64_mono_pos:
  assumes "0 < x" "x \<le> y"
  shows "fl64 x \<le> fl64 y"
proof -
  have y: "0 < y" using assms by simp
  consider "2 powr (- 1022) \<le> x" | "x < 2 powr (- 1022)" "2 powr (- 1022) \<le> y"
    | "y < 2 powr (- 1022)" using assms(2) by linarith
  then show ?thesis
  proof cases
    case 1
    then show ?thesis
      using assms fl64_normal [of x] fl64_normal [of y] monoD [OF fl53_mono assms(2)] by simp
  next
    case 2
    have "- 1022 \<le> log 2 y" using 2(2) y by (simp add: le_log_iff)
    then have "(- 1022 :: int) \<le> \<lfloor>log 2 y\<rfloor>" by (simp add: le_floor_iff)
    then have "(of_int (- 1022) :: real) \<le> of_int \<lfloor>log 2 y\<rfloor>" by (simp only: of_int_le_iff)
    then have "(2::real) powr (- 1022) \<le> 2 powr of_int \<lfloor>log 2 y\<rfloor>" by simp
    then have "2 powr (- 1022) \<le> fl53 y" using fl53_pos_bounds(1) [OF y] by linarith
    then show ?thesis
      using fl64_subnormal_bounds(2) [OF assms(1) 2(1)] fl64_normal [of y] 2(2) y by simp
  next
    case 3
    then have x: "x < 2 powr (- 1022)" using assms(2) by linarith
    have "x / 2 powr (- 1074) \<le> y / 2 powr (- 1074)"
      using assms(2) by (simp add: divide_right_mono)
    then have "(of_int (round_half_even (x / 2 powr (- 1074))) :: real)
        \<le> of_int (round_half_even (y / 2 powr (- 1074)))"
      using round_half_even_mono by simp
    then have "of_int (round_half_even (x / 2 powr (- 1074))) * 2 powr (- 1074)
        \<le> of_int (round_half_even (y / 2 powr (- 1074))) * (2 powr (- 1074) :: real)"
      by (rule mult_right_mono) simp
    then show ?thesis
      using fl64_subnormal [OF assms(1) x] fl64_subnormal [OF y 3] by simp
  qed
qed

lemma fl64_nonneg: "0 \<le> x \<Longrightarrow> 0 \<le> fl64 x"
proof (cases "x = 0")
  case True
  then show ?thesis by simp
next
  case False
  assume "0 \<le> x"
  with False have x: "0 < x" by simp
  show ?thesis
  proof (cases "x < 2 powr (- 1022)")
    case True
    then show ?thesis using fl64_subnormal_bounds(1) [OF x] by simp
  next
    case False
    then show ?thesis using fl64_normal [of x] fl53_pos [OF x] x by simp
  qed
qed

lemma fl64_mono: "mono fl64"
proof (rule monoI)
  fix x y :: real
  assume xy: "x \<le> y"
  consider "0 < x" | "x \<le> 0" "0 \<le> y" | "y < 0"
    using xy by linarith
  then show "fl64 x \<le> fl64 y"
  proof cases
    case 1
    then show ?thesis using xy by (rule fl64_mono_pos)
  next
    case 2
    have "0 \<le> fl64 (- x)" "0 \<le> fl64 y" using 2 by (simp_all add: fl64_nonneg)
    then show ?thesis by (simp add: fl64_minus)
  next
    case 3
    then have "fl64 (- y) \<le> fl64 (- x)" using xy by (intro fl64_mono_pos) simp_all
    then show ?thesis by (simp add: fl64_minus)
  qed
qed

lemma fl64_one [simp]: "fl64 1 = 1"
  using fl64_normal [of 1] by (simp add: powr_minus)

lemma fl53_max_double: "fl53 max_double = max_double"
  using fl53_eval [of max_double 1023] by (simp add: max_double_def)

lemma fl64_max_double: "fl64 max_double = max_double"
proof -
  have "2 powr (- 1022) \<le> \<bar>max_double\<bar>" by (simp add: max_double_def powr_minus)
  then show ?thesis using fl64_normal fl53_max_double by simp
qed

lemma fl53_2_1024: "fl53 (2 ^ 1024) = 2 ^ 1024"
  using fl53_eval [of "2 ^ 1024" 1024] by simp

lemma fl64_2_1024: "fl64 (2 ^ 1024) = 2 ^ 1024"
proof -
  have "2 powr (- 1022) \<le> \<bar>2 ^ 1024 :: real\<bar>" by (simp add: powr_minus)
  then show ?thesis using fl64_normal [of "2 ^ 1024"] fl53_2_1024 by simp
qed

lemma to_double_overflow:
  "2 ^ 1024 \<le> z \<Longrightarrow> to_double fl64 z = PInf"
  "z \<le> - (2 ^ 1024) \<Longrightarrow> to_double fl64 z = NInf"
proof -
  have m: "max_double < 2 ^ 1024" by (simp add: max_double_def)
  show "to_double fl64 z = PInf" if "2 ^ 1024 \<le> z"
  proof -
    have "fl64 (2 ^ 1024) \<le> fl64 z" using that by (rule monoD [OF fl64_mono])
    then have "2 ^ 1024 \<le> fl64 z" by (simp only: fl64_2_1024)
    then have "max_double < fl64 z" using m by linarith
    then show ?thesis by (simp add: to_double_def Let_def)
  qed
  show "to_double fl64 z = NInf" if "z \<le> - (2 ^ 1024)"
  proof -
    have "fl64 z \<le> fl64 (- (2 ^ 1024))" using that by (rule monoD [OF fl64_mono])
    then have "fl64 z \<le> - (2 ^ 1024)" by (simp only: fl64_minus fl64_2_1024)
    then have "fl64 z < - max_double" "\<not> max_double < fl64 z" using m max_double_pos by linarith+
    then show ?thesis by (simp add: to_double_def Let_def)
  qed
qed

lemma logistic_ppf_ends_2:
  "logistic_ppf eps \<le> - 2" "2 \<le> logistic_ppf (1 - eps)"
proof -
  have "exp (1 + 1) = exp 1 * exp (1::real)" by (rule exp_add)
  moreover have "exp 1 * exp (1::real) \<le> 3 * 3"
    by (intro mult_mono exp_le) simp_all
  ultimately have "exp 2 \<le> (2 ^ 52 - 1 :: real)" by simp
  then have b: "2 \<le> ln (2 ^ 52 - 1 :: real)" by (subst ln_ge_iff) simp_all
  have hi: "logistic_ppf (1 - eps) = ln (2 ^ 52 - 1)"
    by (simp add: logistic_ppf_def eps_def field_simps)
  have "eps / (1 - eps) = inverse (2 ^ 52 - 1)"
    by (simp add: eps_def field_simps)
  then have lo: "logistic_ppf eps = - ln (2 ^ 52 - 1)"
    unfolding logistic_ppf_def by (simp only: ln_inverse)
  show "logistic_ppf eps \<le> - 2" "2 \<le> logistic_ppf (1 - eps)"
    using b by (simp_all only: lo hi neg_le_iff_le)
qed

lemma fractions_two_fl64: "fractions fl64 2 = Inr [eps, 1 - eps]"
  using fractions_shape [of 2 fl64] by (simp add: clip_real_zero)

lemma warp_ieee_overflow:
  assumes "ppf eps \<le> - 2" "2 \<le> ppf (1 - eps)"
  shows "warp_ieee fl64 ppf 0 (2 ^ 1023) [eps, 1 - eps] = [NInf, PInf]"
proof -
  have "2 ^ 1023 * ppf eps \<le> 2 ^ 1023 * (- 2)" "2 ^ 1023 * 2 \<le> 2 ^ 1023 * ppf (1 - eps)"
    using assms by (simp_all only: mult_le_cancel_left_pos zero_less_power zero_less_numeral)
  then have "2 ^ 1023 * ppf eps \<le> - (2 ^ 1024)" "2 ^ 1024 \<le> 2 ^ 1023 * ppf (1 - eps)"
    by simp_all
  then have "to_double fl64 (2 ^ 1023 * ppf eps) = NInf"
    "to_double fl64 (2 ^ 1023 * ppf (1 - eps)) = PInf"
    by (simp_all only: to_double_overflow)
  then show ?thesis unfolding warp_ieee_def list.map fmul_ieee.simps by simp
qed

lemma rescale_ieee_infinite: "rescale_ieee rnd n [NInf, PInf] = Inr [NaN, NaN]"
  by (simp add: rescale_ieee_def fmin_def fmax_def fsub_def)

lemma round_clip_NaN: "round_clip cast_x86_64 2 [NaN, NaN] = [0, 0]"
  by (simp add: round_clip_def clip_int_def cast_x86_64_def)

lemma logistic_ppf_odd:
  assumes "x \<in> {eps..1 - eps}"
  shows "logistic_ppf (1 - x) = - logistic_ppf x"
proof -
  have x: "0 < x" "x < 1" using assms eps_pos by auto
  have "(1 - x) / (1 - (1 - x)) = inverse (x / (1 - x))" using x by (simp add: field_simps)
  then show ?thesis unfolding logistic_ppf_def by (simp only: ln_inverse)
qed

section \<open>Doubles that overflow: the shape of the result\<close>

text \<open>
  With the infinities and NaN of stage 4 the function fails on the same inputs, and
  returns a sequence of the same length, within the same bounds and non-decreasing.
\<close>

lemma rescale_ieee_length:
  "rescale_ieee rnd num v = Inr t \<Longrightarrow> length t = length v"
  by (auto simp: rescale_ieee_def Let_def split: sum.splits)

lemma rescale_ieee_ok:
  "v \<noteq> [] \<Longrightarrow> \<exists>t. rescale_ieee rnd num v = Inr t"
  by (cases v) (simp_all add: rescale_ieee_def Let_def)

lemma rescale_ieee_empty:
  "rescale_ieee rnd num [] = Inl ValueError"
  by (simp add: rescale_ieee_def)

lemma stage5_ieee_ok:
  assumes "0 < num"
  shows "\<exists>ts. stage5_ieee rnd ppf cast num m s = Inr ts \<and> length ts = nat num
           \<and> (\<forall>x \<in> set ts. 0 \<le> x \<and> x \<le> num - 1)"
proof -
  obtain u where u: "fractions rnd num = Inr u"
    using fractions_ok [of num rnd] assms by auto
  then have lu: "length u = nat num" by (rule fractions_length)
  with assms have "warp_ieee rnd ppf m s u \<noteq> []" by (auto simp: warp_ieee_def)
  then obtain t where t: "rescale_ieee rnd num (warp_ieee rnd ppf m s u) = Inr t"
    using rescale_ieee_ok by blast
  then have lt: "length t = nat num"
    using rescale_ieee_length [OF t] lu by (simp add: warp_ieee_def)
  have "stage5_ieee rnd ppf cast num m s = Inr (round_clip cast num t)"
    by (simp add: stage5_ieee_def u t)
  moreover have "length (round_clip cast num t) = nat num"
    by (simp add: round_clip_def lt)
  moreover have "\<forall>x \<in> set (round_clip cast num t). 0 \<le> x \<and> x \<le> num - 1"
    using assms by (auto simp: round_clip_def clip_int_def)
  ultimately show ?thesis by blast
qed

lemma get_biased_timesteps_ieee_error:
  assumes "num < 1"
  shows "get_biased_timesteps_ieee rnd ppf cast num m s = Inl ValueError"
proof (cases "num < 0")
  case True
  then show ?thesis
    by (simp add: get_biased_timesteps_ieee_def stage5_ieee_def fractions_def linspace_def)
next
  case False
  with assms have "num = 0" by simp
  then show ?thesis
    by (simp add: get_biased_timesteps_ieee_def stage5_ieee_def fractions_def linspace_def
        warp_ieee_def rescale_ieee_empty)
qed

lemma get_biased_timesteps_ieee_ok:
  assumes "0 < num"
  shows "\<exists>ts. get_biased_timesteps_ieee rnd ppf cast num m s = Inr ts
           \<and> length ts = nat num \<and> sorted ts \<and> (\<forall>x \<in> set ts. 0 \<le> x \<and> x \<le> num - 1)"
proof -
  obtain ts where ts: "stage5_ieee rnd ppf cast num m s = Inr ts" "length ts = nat num"
      "\<forall>x \<in> set ts. 0 \<le> x \<and> x \<le> num - 1"
    using stage5_ieee_ok [OF assms] by blast
  from ts(3) have "\<forall>x \<in> set (ensure_monotonic ts). 0 \<le> x \<and> x \<le> num - 1"
    by (rule ensure_monotonic_bounds)
  with ts show ?thesis
    by (simp add: get_biased_timesteps_ieee_def ensure_monotonic_length ensure_monotonic_sorted)
qed

section \<open>The stages on finite values are the stages on doubles while nothing overflows\<close>

text \<open>
  For a shift and a scale of magnitude at most \<open>2\<^sup>1\<^sup>0\<^sup>0\<^sup>0\<close>, a quantile function of
  magnitude at most \<open>2\<^sup>1\<^sup>0\<close> on \<open>[eps, 1 - eps]\<close> and at most \<open>2\<^sup>6\<^sup>3\<close> steps, no
  operation of stages 3 and 4 overflows, and the two forms of the stages compute the
  same result. The rounding is taken monotone and at most doubling a magnitude, as
  \<open>fl64\<close> is.
\<close>

lemma to_double_bounded:
  fixes rnd :: "real \<Rightarrow> real"
  assumes "\<forall>x. \<bar>rnd x\<bar> \<le> 2 * \<bar>x\<bar>" "\<bar>x\<bar> \<le> b" "b \<le> 2 ^ 1022"
  shows "to_double rnd x = Fin (rnd x)" and "\<bar>rnd x\<bar> \<le> 2 * b"
proof -
  have "\<bar>rnd x\<bar> \<le> 2 * \<bar>x\<bar>" using assms(1) by blast
  then show b: "\<bar>rnd x\<bar> \<le> 2 * b" using assms(2) by linarith
  have "2 * (2 ^ 1022 :: real) \<le> max_double" by (simp add: max_double_def)
  then have "\<bar>rnd x\<bar> \<le> max_double" using b assms(3) by linarith
  then show "to_double rnd x = Fin (rnd x)" by (simp add: to_double_def Let_def abs_le_iff)
qed

lemma fold_fmin_Fin: "fold fmin (map Fin xs) (Fin a) = Fin (fold min xs a)"
  by (induction xs arbitrary: a) (simp_all add: fmin_def min_def)

lemma fold_fmax_Fin: "fold fmax (map Fin xs) (Fin a) = Fin (fold max xs a)"
  by (induction xs arbitrary: a) (simp_all add: fmax_def max_def)

lemma amin_Fin: "v \<noteq> [] \<Longrightarrow> amin (map Fin v) = Inr (Fin (Min (set v)))"
proof (cases v)
  case Nil
  assume "v \<noteq> []"
  with Nil show ?thesis by simp
next
  case (Cons a xs)
  have "fold min xs a = Min (set (a # xs))" by (simp only: Min.set_eq_fold)
  then show ?thesis using Cons by (simp add: fold_fmin_Fin)
qed

lemma amax_Fin: "v \<noteq> [] \<Longrightarrow> amax (map Fin v) = Inr (Fin (Max (set v)))"
proof (cases v)
  case Nil
  assume "v \<noteq> []"
  with Nil show ?thesis by simp
next
  case (Cons a xs)
  have "fold max xs a = Max (set (a # xs))" by (simp only: Max.set_eq_fold)
  then show ?thesis using Cons by (simp add: fold_fmax_Fin)
qed

lemma warp_ieee_Fin:
  fixes rnd ppf :: "real \<Rightarrow> real"
  assumes rnd: "\<forall>x. \<bar>rnd x\<bar> \<le> 2 * \<bar>x\<bar>"
    and m: "\<bar>m\<bar> \<le> 2 ^ 1000" and s: "\<bar>s\<bar> \<le> 2 ^ 1000"
    and p: "\<forall>x \<in> set u. \<bar>ppf x\<bar> \<le> 2 ^ 10"
  shows "warp_ieee rnd ppf m s u = map Fin (warp rnd ppf m s u)"
    and "\<forall>y \<in> set (warp rnd ppf m s u). \<bar>y\<bar> \<le> 2 ^ 1013"
proof -
  have el: "fadd rnd (Fin m) (fmul_ieee rnd (Fin s) (Fin (ppf x))) = Fin (rnd (m + rnd (s * ppf x)))
      \<and> \<bar>rnd (m + rnd (s * ppf x))\<bar> \<le> 2 ^ 1013" if "x \<in> set u" for x
  proof -
    have "\<bar>ppf x\<bar> \<le> 2 ^ 10" using p that by blast
    then have "\<bar>s\<bar> * \<bar>ppf x\<bar> \<le> 2 ^ 1000 * 2 ^ 10" using s by (intro mult_mono) simp_all
    then have a: "\<bar>s * ppf x\<bar> \<le> 2 ^ 1010" by (simp add: abs_mult)
    have w: "to_double rnd (s * ppf x) = Fin (rnd (s * ppf x))" "\<bar>rnd (s * ppf x)\<bar> \<le> 2 * 2 ^ 1010"
      using to_double_bounded [OF rnd a] by simp_all
    have b: "\<bar>m + rnd (s * ppf x)\<bar> \<le> 2 ^ 1012" using m w(2) by (simp add: abs_le_iff)
    have v: "to_double rnd (m + rnd (s * ppf x)) = Fin (rnd (m + rnd (s * ppf x)))"
      "\<bar>rnd (m + rnd (s * ppf x))\<bar> \<le> 2 * 2 ^ 1012"
      using to_double_bounded [OF rnd b] by simp_all
    show ?thesis using w(1) v by simp
  qed
  show "warp_ieee rnd ppf m s u = map Fin (warp rnd ppf m s u)"
    using el by (simp add: warp_ieee_def warp_def)
  show "\<forall>y \<in> set (warp rnd ppf m s u). \<bar>y\<bar> \<le> 2 ^ 1013"
    using el by (auto simp: warp_def)
qed

lemma rescale_ieee_Fin:
  fixes rnd :: "real \<Rightarrow> real"
  assumes mono: "mono rnd" and rnd: "\<forall>x. \<bar>rnd x\<bar> \<le> 2 * \<bar>x\<bar>"
    and v: "\<forall>y \<in> set v. \<bar>y\<bar> \<le> 2 ^ 1013" and n: "1 \<le> n" "n \<le> 2 ^ 63"
  shows "rescale_ieee rnd n (map Fin v) = rescale rnd n v"
proof (cases "v = []")
  case True
  then show ?thesis by (simp add: rescale_ieee_def rescale_def denominator_def)
next
  case False
  define lo where "lo = Min (set v)"
  define hi where "hi = Max (set v)"
  define d where "d = rnd (hi - lo)"
  define k where "k = rnd (of_int (n - 1))"
  have z: "rnd 0 = 0" using rnd [rule_format, of 0] by simp
  have mem: "lo \<in> set v" "hi \<in> set v"
    using False by (simp_all add: lo_def hi_def)
  have lohi: "lo \<le> x \<and> x \<le> hi" if "x \<in> set v" for x
    using that by (simp add: lo_def hi_def)
  have bl: "\<bar>lo\<bar> \<le> 2 ^ 1013" "\<bar>hi\<bar> \<le> 2 ^ 1013" using v mem by blast+
  have sub: "fsub rnd (Fin x) (Fin lo) = Fin (rnd (x - lo))" if "x \<in> set v" for x
  proof -
    have "\<bar>x\<bar> \<le> 2 ^ 1013" using v that by blast
    then have "\<bar>x - lo\<bar> \<le> 2 ^ 1014" using bl(1) by (simp add: abs_le_iff)
    then have "to_double rnd (x - lo) = Fin (rnd (x - lo))"
      using to_double_bounded(1) [OF rnd, of "x - lo" "2 ^ 1014"] by simp
    then show ?thesis by (simp add: fsub_def)
  qed
  have dF: "fsub rnd (Fin hi) (Fin lo) = Fin d" using sub [OF mem(2)] by (simp add: d_def)
  have "\<bar>of_int (n - 1) :: real\<bar> \<le> of_int (2 ^ 63)"
    using n unfolding of_int_abs [symmetric] of_int_le_iff by simp
  then have kb: "\<bar>of_int (n - 1) :: real\<bar> \<le> 2 ^ 63" by simp
  have kF: "to_double rnd (of_int (n - 1)) = Fin k" and kk: "\<bar>k\<bar> \<le> 2 * 2 ^ 63"
    using to_double_bounded [OF rnd kb] by (simp_all add: k_def)
  have kF': "to_double rnd (real_of_int n - 1) = Fin k" using kF by simp
  have el: "fmul_ieee rnd (fdiv_ieee rnd (fsub rnd (Fin x) (Fin lo)) (Fin d)) (Fin k)
      = fmul rnd (fdiv rnd (rnd (x - lo)) d) k" if "x \<in> set v" for x
  proof -
    define a where "a = rnd (x - lo)"
    have "0 \<le> x - lo" "x - lo \<le> hi - lo" using lohi [OF that] by simp_all
    then have a: "0 \<le> a" "a \<le> d"
      using monoD [OF mono, of 0 "x - lo"] monoD [OF mono, of "x - lo" "hi - lo"] z
      by (simp_all add: a_def d_def)
    show ?thesis
    proof (cases "d = 0")
      case True
      then have "a = 0" using a by simp
      then show ?thesis using True sub [OF that] by (simp add: a_def fdiv_def)
    next
      case False
      then have d: "0 < d" using a by simp
      then have q: "\<bar>a / d\<bar> \<le> 1" using a by simp
      have qF: "to_double rnd (a / d) = Fin (rnd (a / d))" and qq: "\<bar>rnd (a / d)\<bar> \<le> 2 * 1"
        using to_double_bounded [OF rnd q] by simp_all
      have "\<bar>rnd (a / d)\<bar> * \<bar>k\<bar> \<le> (2 * 1) * (2 * 2 ^ 63)"
        using qq kk by (intro mult_mono) simp_all
      then have "\<bar>rnd (a / d) * k\<bar> \<le> 2 ^ 65" by (simp add: abs_mult)
      then have "to_double rnd (rnd (a / d) * k) = Fin (rnd (rnd (a / d) * k))"
        using to_double_bounded(1) [OF rnd, of "rnd (a / d) * k" "2 ^ 65"] by simp
      then show ?thesis using False qF sub [OF that] by (simp add: a_def [symmetric] fdiv_def)
    qed
  qed
  have "rescale_ieee rnd n (map Fin v)
      = Inr (map (\<lambda>x. fmul_ieee rnd (fdiv_ieee rnd (fsub rnd (Fin x) (Fin lo)) (Fin d)) (Fin k)) v)"
    using False
    by (simp add: rescale_ieee_def amin_Fin amax_Fin Let_def lo_def [symmetric] hi_def [symmetric]
        dF kF' comp_def)
  also have "\<dots> = Inr (map (\<lambda>x. fmul rnd (fdiv rnd (rnd (x - lo)) d) k) v)"
    using el by simp
  also have "\<dots> = rescale rnd n v"
    using False by (simp add: rescale_def denominator_def Let_def lo_def hi_def d_def k_def)
  finally show ?thesis .
qed

lemma stage5_ieee_error:
  assumes "num < 1"
  shows "stage5_ieee rnd ppf cast num m s = Inl ValueError"
proof (cases "num < 0")
  case True
  then show ?thesis
    by (simp add: stage5_ieee_def fractions_def linspace_def)
next
  case False
  with assms have "num = 0" by simp
  then show ?thesis
    by (simp add: stage5_ieee_def fractions_def linspace_def warp_ieee_def rescale_ieee_empty)
qed

lemma stage5_ieee_finite:
  fixes rnd ppf :: "real \<Rightarrow> real"
  assumes mono: "mono rnd" and rnd: "\<forall>x. \<bar>rnd x\<bar> \<le> 2 * \<bar>x\<bar>"
    and n: "num_steps \<le> 2 ^ 63"
    and m: "\<bar>m\<bar> \<le> 2 ^ 1000" and s: "\<bar>s\<bar> \<le> 2 ^ 1000"
    and p: "\<forall>x \<in> {eps..1 - eps}. \<bar>ppf x\<bar> \<le> 2 ^ 10"
  shows "stage5_ieee rnd ppf cast num_steps m s = stage5 rnd ppf cast num_steps m s"
proof (cases "num_steps < 1")
  case True
  then show ?thesis by (simp add: stage5_ieee_error stage5_error)
next
  case False
  then have n1: "1 \<le> num_steps" by simp
  obtain u where u: "fractions rnd num_steps = Inr u"
    using fractions_ok [of num_steps rnd] n1 by auto
  have "set u \<subseteq> {eps..1 - eps}" using u by (rule fractions_range)
  then have pu: "\<forall>x \<in> set u. \<bar>ppf x\<bar> \<le> 2 ^ 10" using p by blast
  have w: "warp_ieee rnd ppf m s u = map Fin (warp rnd ppf m s u)"
    and b: "\<forall>y \<in> set (warp rnd ppf m s u). \<bar>y\<bar> \<le> 2 ^ 1013"
    using warp_ieee_Fin [OF rnd m s pu] by blast+
  have "rescale_ieee rnd num_steps (map Fin (warp rnd ppf m s u))
      = rescale rnd num_steps (warp rnd ppf m s u)"
    using mono rnd b n1 n by (rule rescale_ieee_Fin)
  then show ?thesis by (simp add: stage5_ieee_def stage5_def u w)
qed

lemma get_biased_timesteps_ieee_finite:
  fixes rnd ppf :: "real \<Rightarrow> real"
  assumes "mono rnd" and "\<forall>x. \<bar>rnd x\<bar> \<le> 2 * \<bar>x\<bar>"
    and "num_steps \<le> 2 ^ 63"
    and "\<bar>m\<bar> \<le> 2 ^ 1000" and "\<bar>s\<bar> \<le> 2 ^ 1000"
    and "\<forall>x \<in> {eps..1 - eps}. \<bar>ppf x\<bar> \<le> 2 ^ 10"
  shows "get_biased_timesteps_ieee rnd ppf cast num_steps m s
    = get_biased_timesteps rnd ppf cast num_steps m s"
  using stage5_ieee_finite [OF assms]
  by (simp add: get_biased_timesteps_ieee_def get_biased_timesteps_def)

lemma round_half_even_le_double:
  assumes "0 \<le> y"
  shows "0 \<le> round_half_even y" and "of_int (round_half_even y) \<le> 2 * y"
proof -
  have f: "0 \<le> \<lfloor>y\<rfloor>" using assms by simp
  have fy: "of_int \<lfloor>y\<rfloor> \<le> y" by simp
  have f': "(0::real) \<le> of_int \<lfloor>y\<rfloor>" using f by simp
  show "0 \<le> round_half_even y" using round_half_even_cases [of y] f by auto
  consider "round_half_even y = \<lfloor>y\<rfloor>"
    | "round_half_even y = \<lfloor>y\<rfloor> + 1" "1 / 2 \<le> y - of_int \<lfloor>y\<rfloor>"
    using round_half_even_cases [of y] by blast
  then show "of_int (round_half_even y) \<le> 2 * y"
  proof cases
    case 1
    have "of_int \<lfloor>y\<rfloor> \<le> 2 * y" using fy assms by linarith
    then show ?thesis by (simp only: 1)
  next
    case 2
    have "of_int (\<lfloor>y\<rfloor> + 1) = of_int \<lfloor>y\<rfloor> + (1::real)" by simp
    moreover have "of_int \<lfloor>y\<rfloor> + 1 \<le> 2 * y" using 2(2) f' by linarith
    ultimately show ?thesis by (simp only: 2(1))
  qed
qed

lemma fl64_le_double_pos:
  assumes "0 < x"
  shows "\<bar>fl64 x\<bar> \<le> 2 * x"
proof (cases "x < 2 powr (- 1022)")
  case True
  define Q :: real where "Q = 2 powr (- 1074)"
  have Q: "0 < Q" by (simp add: Q_def)
  have fl: "fl64 x = of_int (round_half_even (x / Q)) * Q"
    using fl64_subnormal [OF assms True] by (simp add: Q_def)
  have y: "0 \<le> x / Q" using assms Q by simp
  have "of_int (round_half_even (x / Q)) * Q \<le> (2 * (x / Q)) * Q"
    using round_half_even_le_double(2) [OF y] Q by (intro mult_right_mono) simp_all
  moreover have "0 \<le> of_int (round_half_even (x / Q)) * Q"
    using round_half_even_le_double(1) [OF y] Q by simp
  ultimately show ?thesis using Q by (simp add: fl)
next
  case False
  then have e: "fl64 x = fl53 x" using assms by (simp add: fl64_normal)
  have "\<bar>fl53 x - x\<bar> \<le> \<bar>x\<bar> / 2 ^ 53" using fl53_rel_error_all by blast
  moreover have "\<bar>x\<bar> / 2 ^ 53 \<le> x" using assms by simp
  ultimately have "\<bar>fl53 x\<bar> \<le> 2 * x" by linarith
  then show ?thesis by (simp only: e)
qed

lemma fl64_le_double: "\<forall>x. \<bar>fl64 x\<bar> \<le> 2 * \<bar>x\<bar>"
proof
  fix x :: real
  consider "0 < x" | "x = 0" | "0 < - x" by linarith
  then show "\<bar>fl64 x\<bar> \<le> 2 * \<bar>x\<bar>"
  proof cases
    case 1
    then show ?thesis using fl64_le_double_pos [of x] by simp
  next
    case 2
    then show ?thesis by simp
  next
    case 3
    then show ?thesis using fl64_le_double_pos [of "- x"] by (simp add: fl64_minus)
  qed
qed

lemma logistic_ppf_bounded: "\<forall>x \<in> {eps..1 - eps}. \<bar>logistic_ppf x\<bar> \<le> 2 ^ 10"
proof
  fix x assume x: "x \<in> {eps..1 - eps}"
  have e: "eps \<in> {eps..1 - eps}" "1 - eps \<in> {eps..1 - eps}" using eps_le by simp_all
  have "logistic_ppf eps \<le> logistic_ppf x" "logistic_ppf x \<le> logistic_ppf (1 - eps)"
    using mono_onD [OF logistic_ppf_mono_on e(1) x] mono_onD [OF logistic_ppf_mono_on x e(2)] x
    by simp_all
  then show "\<bar>logistic_ppf x\<bar> \<le> 2 ^ 10" using logistic_ppf_bounds by (simp add: abs_le_iff)
qed

lemma binary64_agrees_while_finite:
  assumes "num_steps \<le> 2 ^ 63" "\<bar>m\<bar> \<le> 2 ^ 1000" "\<bar>s\<bar> \<le> 2 ^ 1000"
  shows "get_biased_timesteps_ieee fl64 logistic_ppf cast num_steps m s
    = get_biased_timesteps fl64 logistic_ppf cast num_steps m s"
  using fl64_mono fl64_le_double assms logistic_ppf_bounded
  by (rule get_biased_timesteps_ieee_finite)

section \<open>The properties of the specification\<close>

text \<open>
  C1. For every integer \<open>num_steps < 1\<close>, in particular 0 and -1, the call fails with
  an invalid-argument error and returns no sequence: numpy raises \<^verbatim>\<open>ValueError\<close>,
  from \<^verbatim>\<open>linspace\<close> when the count is negative and from \<^verbatim>\<open>v.min()\<close> when
  it is zero.
\<close>

theorem invalid_num_steps_raises:
  "num_steps < 1 \<Longrightarrow> get_biased_timesteps rnd ppf cast num_steps m s = Inl ValueError"
  by (simp add: get_biased_timesteps_def stage5_error)

theorem invalid_num_steps_raises_witness:
  "get_biased_timesteps fl53 logistic_ppf cast_x86_64 0 0 (1 / 2) = Inl ValueError
   \<and> get_biased_timesteps fl53 logistic_ppf cast_x86_64 (- 1) 0 (1 / 2) = Inl ValueError"
  using invalid_num_steps_raises [of 0 fl53 logistic_ppf cast_x86_64 0 "1 / 2"]
    invalid_num_steps_raises [of "- 1" fl53 logistic_ppf cast_x86_64 0 "1 / 2"]
  by simp

text \<open>
  C2. For \<open>num_steps = 1\<close>, with any \<open>m\<close> and \<open>s\<close>, the result is the one-element
  sequence \<open>[0]\<close>: stage 4 divides 0 by 0, and the clamp of stage 5 into \<open>[0, 0]\<close>
  absorbs whatever the conversion of the NaN produced.
\<close>

theorem single_step_returns_zero:
  "get_biased_timesteps rnd ppf cast 1 m s = Inr [0]"
  by (simp add: get_biased_timesteps_def stage5_single)

text \<open>
  C3. For every positive \<open>num_steps\<close> and all real \<open>m\<close>, \<open>s\<close> the call returns a
  sequence that is non-decreasing: \<open>result[i] \<ge> result[i-1]\<close> for every index
  \<open>i > 0\<close>.
\<close>

theorem result_non_decreasing:
  assumes "0 < num_steps"
  shows "\<exists>ts. get_biased_timesteps rnd ppf cast num_steps m s = Inr ts
           \<and> (\<forall>i. 0 < i \<and> i < length ts \<longrightarrow> ts ! (i - 1) \<le> ts ! i)"
proof -
  obtain ts where ts: "stage5 rnd ppf cast num_steps m s = Inr ts"
    using stage5_ok [OF assms] by blast
  have "sorted (ensure_monotonic ts)" by (rule ensure_monotonic_sorted)
  then have "\<forall>i. 0 < i \<and> i < length (ensure_monotonic ts)
      \<longrightarrow> ensure_monotonic ts ! (i - 1) \<le> ensure_monotonic ts ! i"
    by (simp add: sorted_iff_nth_mono)
  with ts show ?thesis by (simp add: get_biased_timesteps_def)
qed

theorem result_non_decreasing_witness:
  "\<exists>ts. get_biased_timesteps fl53 logistic_ppf cast_x86_64 5 0 (1 / 2) = Inr ts
     \<and> (\<forall>i. 0 < i \<and> i < length ts \<longrightarrow> ts ! (i - 1) \<le> ts ! i)"
  using result_non_decreasing [of 5 fl53 logistic_ppf cast_x86_64 0 "1 / 2"] by simp

text \<open>
  C4. For every positive \<open>num_steps\<close> and all real \<open>m\<close>, \<open>s\<close> every element \<open>x\<close>
  of the returned sequence is an integer with \<open>0 \<le> x \<le> num_steps - 1\<close>.
\<close>

theorem result_in_bounds:
  assumes "0 < num_steps"
  shows "\<exists>ts. get_biased_timesteps rnd ppf cast num_steps m s = Inr ts
           \<and> (\<forall>x \<in> set ts. 0 \<le> x \<and> x \<le> num_steps - 1)"
proof -
  obtain ts where ts: "stage5 rnd ppf cast num_steps m s = Inr ts"
      "\<forall>x \<in> set ts. 0 \<le> x \<and> x \<le> num_steps - 1"
    using stage5_ok [OF assms] by blast
  from ts(2) have "\<forall>x \<in> set (ensure_monotonic ts). 0 \<le> x \<and> x \<le> num_steps - 1"
    by (rule ensure_monotonic_bounds)
  with ts show ?thesis by (simp add: get_biased_timesteps_def)
qed

theorem result_in_bounds_witness:
  "\<exists>ts. get_biased_timesteps fl53 logistic_ppf cast_x86_64 5 0 (1 / 2) = Inr ts
     \<and> list_all (\<lambda>x. 0 \<le> x \<and> x \<le> 4) ts"
  using result_in_bounds [of 5 fl53 logistic_ppf cast_x86_64 0 "1 / 2"]
  by (simp add: list_all_iff)

text \<open>
  C5. For every positive \<open>num_steps\<close> and all real \<open>m\<close>, \<open>s\<close> the returned sequence
  has exactly \<open>num_steps\<close> elements.
\<close>

theorem result_length:
  assumes "0 < num_steps"
  shows "\<exists>ts. get_biased_timesteps rnd ppf cast num_steps m s = Inr ts
           \<and> int (length ts) = num_steps"
proof -
  obtain ts where ts: "stage5 rnd ppf cast num_steps m s = Inr ts" "length ts = nat num_steps"
    using stage5_ok [OF assms] by blast
  with assms show ?thesis
    by (simp add: get_biased_timesteps_def ensure_monotonic_length)
qed

theorem result_length_witness:
  "\<exists>ts. get_biased_timesteps fl53 logistic_ppf cast_x86_64 5 0 (1 / 2) = Inr ts
     \<and> length ts = 5"
  using result_length [of 5 fl53 logistic_ppf cast_x86_64 0 "1 / 2"] by auto

text \<open>
  C6. For every \<open>num_steps \<ge> 1\<close> and the default parameters \<open>m = 0.0\<close>, \<open>s = 0.5\<close>
  the first element of the returned sequence is 0. The quantile function of scipy is a
  parameter: it is taken non-decreasing on \<open>[eps, 1 - eps]\<close>, negative at \<open>eps\<close> and
  positive at \<open>1 - eps\<close>; the rounding is taken monotone and zero only at zero, as
  \<open>fl53\<close> is.
\<close>

theorem first_timestep_zero:
  fixes rnd ppf :: "real \<Rightarrow> real"
  assumes "1 \<le> num_steps" and "mono rnd" and "\<forall>x. rnd x = 0 \<longleftrightarrow> x = 0"
    and "mono_on {eps..1 - eps} ppf" and "ppf eps < 0" and "0 < ppf (1 - eps)"
  shows "\<exists>ts. get_biased_timesteps rnd ppf cast num_steps 0 (1 / 2) = Inr (0 # ts)"
proof (cases "num_steps = 1")
  case True
  then show ?thesis by (simp add: get_biased_timesteps_def stage5_single)
next
  case False
  with assms(1) have n: "2 \<le> num_steps" by simp
  have "rnd (1 / 2 * ppf eps) < 0" "0 < rnd (1 / 2 * ppf (1 - eps))"
    using assms(5,6) by (simp_all add: rnd_sign [OF assms(2,3)])
  then have "rnd (0 + rnd (1 / 2 * ppf eps)) < 0" "0 < rnd (0 + rnd (1 / 2 * ppf (1 - eps)))"
    by (simp_all add: rnd_sign [OF assms(2,3)])
  then have "rnd (0 + rnd (1 / 2 * ppf eps)) < rnd (0 + rnd (1 / 2 * ppf (1 - eps)))"
    by linarith
  then obtain ts where "stage5 rnd ppf cast num_steps 0 (1 / 2) = Inr (0 # ts)"
    using stage5_first [OF n _ assms(2,3,4), of "1 / 2" 0 cast] by auto
  then show ?thesis by (simp add: get_biased_timesteps_def)
qed

theorem first_timestep_zero_witness:
  "\<exists>ts. get_biased_timesteps fl53 logistic_ppf cast_x86_64 5 0 (1 / 2) = Inr (0 # ts)"
  using first_timestep_zero [of 5 fl53 logistic_ppf cast_x86_64]
    fl53_mono fl53_zero_iff_all logistic_ppf_mono_on logistic_ppf_eps logistic_ppf_one_minus_eps
  by simp

text \<open>
  C7, as amended. The claim that for \<open>m = 0\<close>, any \<open>s > 0\<close> and every \<open>num_steps \<ge> 2\<close>
  the sequence \<^verbatim>\<open>t\<close> of stage 4 is symmetric, \<open>t\<^sub>i + t\<^sub>n\<^sub>-\<^sub>1\<^sub>-\<^sub>i = num_steps - 1\<close>, fails on
  doubles: a scale large enough overflows and every \<open>t\<^sub>i\<close> is NaN. What holds: in exact
  arithmetic, where no operation rounds or overflows, and for a quantile function odd
  about 1/2 on \<open>[eps, 1 - eps]\<close> (as the normal one is) and nonzero at \<open>eps\<close>, every
  \<open>t\<^sub>i\<close> is finite and \<open>t\<^sub>i + t\<^sub>n\<^sub>-\<^sub>1\<^sub>-\<^sub>i = num_steps - 1\<close>.
\<close>

theorem exact_arithmetic_symmetry:
  assumes n: "2 \<le> n" and s: "0 < s"
    and odd: "\<And>x. x \<in> {eps..1 - eps} \<Longrightarrow> ppf (1 - x) = - ppf x"
    and ne: "ppf eps \<noteq> 0"
  shows "\<exists>u t. fractions (\<lambda>x. x) n = Inr u
    \<and> rescale (\<lambda>x. x) n (warp (\<lambda>x. x) ppf 0 s u) = Inr t
    \<and> length t = nat n
    \<and> (\<forall>i < length t. \<exists>a b. t ! i = Fin a \<and> t ! (length t - 1 - i) = Fin b
          \<and> a + b = of_int (n - 1))"
proof -
  define N where "N = nat (n - 1)"
  have N: "0 < N" "of_int (n - 1) = (of_nat N :: real)" using n by (simp_all add: N_def)
  define c where "c = (\<lambda>i::nat. clip_real eps (1 - eps) (of_nat i / of_nat N))"
  define w where "w = (\<lambda>i. s * ppf (c i))"
  define v where "v = map w [0..<Suc N]"
  have u: "fractions (\<lambda>x. x) n = Inr (map c [0..<Suc N])"
    using fractions_exact [OF n] by (simp add: c_def N_def)
  have v: "warp (\<lambda>x. x) ppf 0 s (map c [0..<Suc N]) = v"
    by (simp add: warp_def v_def w_def)
  have c_range: "c i \<in> {eps..1 - eps}" for i
    using clip_real_range [OF eps_le] by (simp add: c_def)
  have c_sym: "c (N - i) = 1 - c i" if "i \<le> N" for i
  proof -
    have "(of_nat (N - i) :: real) / of_nat N = 1 - of_nat i / of_nat N"
      using that N(1) by (simp add: of_nat_diff field_simps)
    then show ?thesis by (simp add: c_def clip_real_reflect)
  qed
  have w_sym: "w (N - i) = - w i" if "i \<le> N" for i
    using c_sym [OF that] odd [OF c_range, of i] by (simp add: w_def)
  have set_v: "set v = w ` {0..N}"
    unfolding v_def set_map set_upt atLeastLessThanSuc_atLeastAtMost by (rule refl)
  have fin: "finite (set v)" "set v \<noteq> {}" by (simp_all add: v_def)
  have neg: "- x \<in> set v" if "x \<in> set v" for x
  proof -
    from that obtain i where i: "i \<le> N" "x = w i" by (auto simp: set_v)
    then have "- x = w (N - i)" using w_sym by simp
    then show ?thesis by (simp add: set_v)
  qed
  define lo where "lo = Min (set v)"
  define hi where "hi = Max (set v)"
  have lohi: "lo = - hi" unfolding lo_def hi_def using fin neg by (rule Min_neg_Max)
  have "c 0 = eps" by (simp add: c_def clip_real_zero)
  then have w0: "w 0 \<noteq> 0" using s ne by (simp add: w_def)
  have "w 0 \<in> set v" by (simp add: set_v)
  then have "lo \<le> w 0" "w 0 \<le> hi"
    unfolding lo_def hi_def using fin(1) by (rule Min_le [rotated], rule Max_ge [rotated])
  then have "hi \<noteq> 0" using lohi w0 by linarith
  then have d: "hi - lo \<noteq> 0" using lohi by simp
  define f where "f = (\<lambda>x. Fin ((x - lo) / (hi - lo) * of_int (n - 1)))"
  define t where "t = map f v"
  have "v \<noteq> []" using fin(2) by simp
  then have t: "rescale (\<lambda>x. x) n v = Inr t"
    using d unfolding lo_def hi_def t_def f_def by (rule rescale_exact)
  have len: "length t = nat n" using n by (simp add: t_def v_def N_def)
  have nth: "t ! j = Fin ((w j - lo) / (hi - lo) * of_int (n - 1))" if "j < Suc N" for j
  proof -
    have "v ! j = w j" using that unfolding v_def by (simp only: nth_map_upt) simp
    moreover have "j < length v" using that by (simp add: v_def)
    ultimately show ?thesis by (simp add: t_def f_def)
  qed
  have sym: "\<exists>a b. t ! i = Fin a \<and> t ! (length t - 1 - i) = Fin b \<and> a + b = of_int (n - 1)"
    if "i < length t" for i
  proof -
    have i: "i \<le> N" "N - i < Suc N" "i < Suc N" "length t - 1 - i = N - i"
      using that by (simp_all add: t_def v_def)
    have "(w i - lo) / (hi - lo) * of_int (n - 1) + (w (N - i) - lo) / (hi - lo) * of_int (n - 1)
        = (of_int (n - 1) :: real)"
      using d w_sym [OF i(1)] lohi by (simp add: field_simps)
    then show ?thesis using nth [OF i(3)] nth [OF i(2)] i(4) by simp
  qed
  show ?thesis using u v t len sym by auto
qed

theorem exact_arithmetic_symmetry_witness:
  "\<exists>u t. fractions (\<lambda>x. x) 5 = Inr u
    \<and> rescale (\<lambda>x. x) 5 (warp (\<lambda>x. x) logistic_ppf 0 (1 / 2) u) = Inr t
    \<and> length t = 5
    \<and> list_all (\<lambda>i. \<exists>a b. t ! i = Fin a \<and> t ! (length t - 1 - i) = Fin b \<and> a + b = 4)
        [0..<length t]"
proof -
  have "logistic_ppf eps \<noteq> 0" using logistic_ppf_eps by simp
  then show ?thesis
    using exact_arithmetic_symmetry [of 5 "1 / 2" logistic_ppf, OF _ _ logistic_ppf_odd]
    by (auto simp: list_all_iff)
qed

text \<open>
  C7, the counterexample: \<open>num_steps = 2\<close>, \<open>m = 0\<close>, \<open>s = 2\<^sup>1\<^sup>0\<^sup>2\<^sup>3\<close> on binary64. The
  warped values are \<open>-inf\<close> and \<open>inf\<close>, stage 4 gives \<open>[NaN, NaN]\<close> (and the function
  returns \<open>[0, 0]\<close> where NaN converts as on x86-64), with the logistic quantile function
  and with every quantile function of magnitude at least 2 at the two ends (scipy's is
  about 8.13).
\<close>

theorem overflowing_scale_not_symmetric:
  "fractions fl64 2 = Inr [eps, 1 - eps]
   \<and> rescale_ieee fl64 2 (warp_ieee fl64 logistic_ppf 0 (2 ^ 1023) [eps, 1 - eps]) = Inr [NaN, NaN]
   \<and> get_biased_timesteps_ieee fl64 logistic_ppf cast_x86_64 2 0 (2 ^ 1023) = Inr [0, 0]
   \<and> \<not> (\<exists>ppf. ppf eps \<le> - 2 \<and> 2 \<le> ppf (1 - eps)
          \<and> rescale_ieee fl64 2 (warp_ieee fl64 ppf 0 (2 ^ 1023) [eps, 1 - eps]) \<noteq> Inr [NaN, NaN])"
proof -
  have r: "rescale_ieee fl64 2 (warp_ieee fl64 ppf 0 (2 ^ 1023) [eps, 1 - eps]) = Inr [NaN, NaN]"
    if "ppf eps \<le> - 2" "2 \<le> ppf (1 - eps)" for ppf
    unfolding warp_ieee_overflow [OF that] by (rule rescale_ieee_infinite)
  have "stage5_ieee fl64 logistic_ppf cast_x86_64 2 0 (2 ^ 1023) = Inr [0, 0]"
    unfolding stage5_ieee_def fractions_two_fl64 sum.case r [OF logistic_ppf_ends_2] round_clip_NaN
    by (rule refl)
  then have "get_biased_timesteps_ieee fl64 logistic_ppf cast_x86_64 2 0 (2 ^ 1023) = Inr [0, 0]"
    by (simp add: get_biased_timesteps_ieee_def)
  then show ?thesis using r r [OF logistic_ppf_ends_2] fractions_two_fl64 by blast
qed

text \<open>
  C8, as amended. The claim that the denominator \<^verbatim>\<open>v.max() - v.min()\<close> of stage 4 is
  nonzero for every \<open>num_steps \<ge> 2\<close> and all \<open>m\<close>, \<open>s\<close> the function accepts fails
  for \<open>s = 0\<close>, which the function accepts, and for a shift that absorbs the warp. What
  holds: for every \<open>num_steps \<ge> 2\<close>, every \<open>s \<noteq> 0\<close> and every \<open>m\<close> with
  \<open>|m| \<le> 2\<^sup>5\<^sup>0 * |s|\<close> the denominator is nonzero. The rounding is taken with a relative
  error of at most \<open>2\<^sup>-\<^sup>5\<^sup>3\<close>, as \<open>fl53\<close> has, and the quantile function at most -1 at
  \<open>eps\<close> and at least 1 at \<open>1 - eps\<close>.
\<close>

theorem denominator_nonzero_for_moderate_shift:
  fixes rnd ppf :: "real \<Rightarrow> real"
  assumes n: "2 \<le> num_steps" and s: "s \<noteq> 0" and m: "\<bar>m\<bar> \<le> 2 ^ 50 * \<bar>s\<bar>"
    and rel: "\<forall>x. \<bar>rnd x - x\<bar> \<le> \<bar>x\<bar> / 2 ^ 53"
    and p: "ppf eps \<le> - 1" "1 \<le> ppf (1 - eps)"
  shows "\<exists>u d. fractions rnd num_steps = Inr u
           \<and> denominator rnd (warp rnd ppf m s u) = Inr d \<and> d \<noteq> 0"
proof -
  have z: "rnd 0 = 0" using rel_error_zero_iff [OF rel, of 0] by simp
  have ends: "rnd (m + rnd (s * ppf eps)) \<noteq> rnd (m + rnd (s * ppf (1 - eps)))"
    using rel s m p by (rule warped_ends_differ)
  define w where "w = (\<lambda>x. rnd (m + rnd (s * ppf x)))"
  obtain u' where u: "fractions rnd num_steps = Inr (eps # u')"
    using fractions_hd [of num_steps rnd] n z by auto
  have last: "1 - eps \<in> set (eps # u')" using n u by (rule fractions_last)
  define v where "v = warp rnd ppf m s (eps # u')"
  have v: "v = w eps # map w u'" by (simp add: v_def warp_def w_def)
  from last have "w (1 - eps) \<in> w ` set (eps # u')" by (rule imageI)
  then have a: "w (1 - eps) \<in> set v" by (simp add: v)
  have b: "w eps \<in> set v" by (simp add: v)
  have "Min (set v) \<le> w eps" "w eps \<le> Max (set v)"
    "Min (set v) \<le> w (1 - eps)" "w (1 - eps) \<le> Max (set v)"
    using a b by simp_all
  then have "Max (set v) - Min (set v) \<noteq> 0" using ends by (simp add: w_def)
  then have "rnd (Max (set v) - Min (set v)) \<noteq> 0"
    using rel_error_zero_iff [OF rel] by simp
  then show ?thesis using u by (simp add: denominator_def v_def [symmetric] v)
qed

theorem denominator_nonzero_for_moderate_shift_witness:
  "\<exists>u d. fractions fl53 5 = Inr u
     \<and> denominator fl53 (warp fl53 logistic_ppf 3 (1 / 2) u) = Inr d \<and> d \<noteq> 0"
  using denominator_nonzero_for_moderate_shift [of 5 "1 / 2" 3 fl53 logistic_ppf]
    fl53_rel_error_all logistic_ppf_ends
  by simp

text \<open>
  C8, the counterexample: for \<open>num_steps = 2\<close>, \<open>m = 0\<close> and \<open>s = 0\<close>, on doubles, the
  denominator is 0 whatever the quantile function, and the function returns normally:
  \<open>[0, 0]\<close> where NaN converts as on x86-64. The denominator is 0 as well for
  \<open>m = 2\<^sup>6\<^sup>0\<close> and \<open>s = 0.5\<close>, where the shift absorbs the warp.
\<close>

theorem zero_scale_zero_denominator:
  "fractions fl53 2 = Inr [eps, 1 - eps]
   \<and> (\<forall>ppf. denominator fl53 (warp fl53 ppf 0 0 [eps, 1 - eps]) = Inr 0)
   \<and> (\<forall>ppf. get_biased_timesteps fl53 ppf cast_x86_64 2 0 0 = Inr [0, 0])
   \<and> denominator fl53 (warp fl53 logistic_ppf (2 ^ 60) (1 / 2) [eps, 1 - eps]) = Inr 0"
proof -
  have "get_biased_timesteps fl53 ppf cast_x86_64 2 0 0 = Inr [0, 0]" for ppf
    using stage5_collapsed [OF fractions_two warp_zero_scale, of ppf cast_x86_64]
    by (simp add: get_biased_timesteps_def clip_cast_x86_64)
  moreover have "denominator fl53 (warp fl53 logistic_ppf (2 ^ 60) (1 / 2) [eps, 1 - eps]) = Inr 0"
    unfolding warp_absorbed by (simp add: denominator_def)
  ultimately show ?thesis
    by (simp add: fractions_two warp_zero_scale denominator_def)
qed

text \<open>
  C9, as amended. The claim that the result does not depend on \<open>m\<close> fails on doubles:
  a shift large enough absorbs \<open>s * ppf(u)\<close> in the addition of stage 3, all warped
  values coincide and stage 4 divides 0 by 0. What holds: in exact arithmetic, where no
  operation rounds, the subtraction of \<^verbatim>\<open>v.min()\<close> cancels \<open>m\<close> and the result is the
  same for any two shifts.
\<close>

theorem exact_arithmetic_shift_invariant:
  "get_biased_timesteps (\<lambda>x. x) ppf cast num_steps m1 s
     = get_biased_timesteps (\<lambda>x. x) ppf cast num_steps m2 s"
  using stage5_exact [of ppf cast num_steps m1 s] stage5_exact [of ppf cast num_steps m2 s]
  by (simp add: get_biased_timesteps_def)

text \<open>
  C9, the counterexample: \<open>num_steps = 2\<close>, \<open>s = 0.5\<close>, \<open>m = 2\<^sup>6\<^sup>0\<close> against \<open>m = 0\<close>,
  on doubles. With the logistic quantile function and the conversion of x86-64 the
  results are \<open>[0, 0]\<close> and \<open>[0, 1]\<close>; and the two results differ for every quantile
  function that is negative at \<open>eps\<close>, positive at \<open>1 - eps\<close> and at most 64 in magnitude
  there (scipy's is about 8.13), whatever the conversion of NaN.
\<close>

theorem large_shift_changes_result:
  "get_biased_timesteps fl53 logistic_ppf cast_x86_64 2 (2 ^ 60) (1 / 2) = Inr [0, 0]
   \<and> get_biased_timesteps fl53 logistic_ppf cast_x86_64 2 0 (1 / 2) = Inr [0, 1]
   \<and> \<not> (\<exists>ppf cast. ppf eps < 0 \<and> 0 < ppf (1 - eps) \<and> \<bar>ppf eps\<bar> \<le> 64 \<and> \<bar>ppf (1 - eps)\<bar> \<le> 64
        \<and> get_biased_timesteps fl53 ppf cast 2 (2 ^ 60) (1 / 2)
            = get_biased_timesteps fl53 ppf cast 2 0 (1 / 2))"
proof (intro conjI notI)
  show "get_biased_timesteps fl53 logistic_ppf cast_x86_64 2 (2 ^ 60) (1 / 2) = Inr [0, 0]"
    unfolding get_biased_timesteps_def stage5_absorbed [OF logistic_ppf_bounds]
    by (simp add: clip_cast_x86_64)
  show "get_biased_timesteps fl53 logistic_ppf cast_x86_64 2 0 (1 / 2) = Inr [0, 1]"
    unfolding get_biased_timesteps_def
      stage5_unshifted [OF logistic_ppf_eps logistic_ppf_one_minus_eps]
    by simp
next
  assume "\<exists>ppf cast. ppf eps < 0 \<and> 0 < ppf (1 - eps) \<and> \<bar>ppf eps\<bar> \<le> 64 \<and> \<bar>ppf (1 - eps)\<bar> \<le> 64
        \<and> get_biased_timesteps fl53 ppf cast 2 (2 ^ 60) (1 / 2)
            = get_biased_timesteps fl53 ppf cast 2 0 (1 / 2)"
  then obtain ppf cast where p: "ppf eps < 0" "0 < ppf (1 - eps)"
      "\<bar>ppf eps\<bar> \<le> 64" "\<bar>ppf (1 - eps)\<bar> \<le> 64"
    and eq: "get_biased_timesteps fl53 ppf cast 2 (2 ^ 60) (1 / 2)
            = get_biased_timesteps fl53 ppf cast 2 0 (1 / 2)" by blast
  from eq show False
    unfolding get_biased_timesteps_def stage5_absorbed [OF p(3,4)] stage5_unshifted [OF p(1,2)]
    by auto
qed

text \<open>
  C10. For every \<open>num_steps \<ge> 2\<close> and every \<open>s > 0\<close>, with any \<open>m\<close>, the sequence
  that stage 5 produces is already non-decreasing, so the loop of stage 6 changes no
  element: the function equals the one without the loop. This is proved on the doubles
  that overflow: where infinities or NaN appear in stage 4, stage 5 is a run of zeros
  followed by the clamped conversion of NaN, or that conversion throughout. The
  quantile function is taken non-decreasing on \<open>[eps, 1 - eps]\<close>; the rounding monotone
  with 0, 1 and the largest double fixed, as \<open>fl64\<close> is; and \<open>num_steps\<close> at most
  \<open>2\<^sup>6\<^sup>3\<close>, the bound of an array's length.
\<close>

theorem repair_loop_is_identity:
  fixes rnd ppf :: "real \<Rightarrow> real"
  assumes "2 \<le> num_steps" and "num_steps \<le> 2 ^ 63" and "0 < s"
    and "mono rnd" and "rnd 0 = 0" and "rnd 1 = 1" and "rnd max_double = max_double"
    and "mono_on {eps..1 - eps} ppf"
  shows "(\<exists>ts. stage5_ieee rnd ppf cast num_steps m s = Inr ts \<and> sorted ts)
    \<and> get_biased_timesteps_ieee rnd ppf cast num_steps m s
        = get_biased_timesteps_ieee_no_repair rnd ppf cast num_steps m s"
proof -
  obtain ts where ts: "stage5_ieee rnd ppf cast num_steps m s = Inr ts" "sorted ts"
    using stage5_ieee_sorted [of num_steps s rnd ppf cast m] assms by auto
  then show ?thesis
    by (simp add: get_biased_timesteps_ieee_def get_biased_timesteps_ieee_no_repair_def
        ensure_monotonic_sorted_id)
qed

theorem repair_loop_is_identity_witness:
  "((\<exists>ts. stage5_ieee fl64 logistic_ppf cast_x86_64 5 0 (1 / 2) = Inr ts \<and> sorted ts)
    \<and> get_biased_timesteps_ieee fl64 logistic_ppf cast_x86_64 5 0 (1 / 2)
        = get_biased_timesteps_ieee_no_repair fl64 logistic_ppf cast_x86_64 5 0 (1 / 2))
   \<and> ((\<exists>ts. stage5_ieee fl64 logistic_ppf cast_x86_64 5 3 (2 ^ 1023) = Inr ts \<and> sorted ts)
    \<and> get_biased_timesteps_ieee fl64 logistic_ppf cast_x86_64 5 3 (2 ^ 1023)
        = get_biased_timesteps_ieee_no_repair fl64 logistic_ppf cast_x86_64 5 3 (2 ^ 1023))"
  using repair_loop_is_identity [of 5 "1 / 2" fl64 logistic_ppf cast_x86_64 0]
    repair_loop_is_identity [of 5 "2 ^ 1023" fl64 logistic_ppf cast_x86_64 3]
    fl64_mono fl64_max_double logistic_ppf_mono_on
  by simp

end
